theory Spec2Isabelle
  imports Main "HOL-Library.Word"
begin

section \<open>The projection AST of \<^verbatim>\<open>mongo/db/query/projection_ast.h\<close>\<close>

text \<open>
  The nodes of a projection tree are heap objects: a parent owns its children through
  \<^verbatim>\<open>std::unique_ptr\<close> and every child holds a raw back pointer \<^verbatim>\<open>_parent\<close>.
  The model is an explicit store. An address is an index into the store, a node is a
  record of the two fields of \<^verbatim>\<open>ASTNode\<close> and of the members of its concrete class,
  \<^verbatim>\<open>std::make_unique\<close> appends a cell, and a raw pointer that may be null is an
  \<open>addr option\<close>. The C++ \<^verbatim>\<open>int\<close> is a 32-bit word.
\<close>

subsection \<open>Data model\<close>

type_synonym addr = nat
type_synonym cint = "32 word"

text \<open>
  The members of the seven concrete classes. \<open>'b\<close> is \<^verbatim>\<open>BSONObj\<close> (a handle on a
  shared buffer), \<open>'m\<close> is \<^verbatim>\<open>MatchExpression\<close> and \<open>'e\<close> is \<^verbatim>\<open>Expression\<close>; the two
  smart pointers \<^verbatim>\<open>_matchExpr\<close> and \<^verbatim>\<open>_expr\<close> may be null.
\<close>

datatype ('b, 'm, 'e) node_kind =
    MatchExpressionASTNode 'b "'m option"
  | ProjectionPathASTNode "string list"
  | ProjectionPositionalASTNode
  | ProjectionSliceASTNode "cint option" cint
  | ProjectionElemMatchASTNode
  | ExpressionASTNode "'e option"
  | BooleanConstantASTNode bool

record ('b, 'm, 'e) ASTNode =
  parent :: "addr option"
  children :: "addr list"
  payload :: "('b, 'm, 'e) node_kind"

type_synonym ('b, 'm, 'e) heap = "('b, 'm, 'e) ASTNode list"

text \<open>
  How an operation can fail: \<^verbatim>\<open>invariant(...)\<close> aborts the process, a null, dangling or
  wrongly typed pointer is dereferenced (undefined behaviour, taken as a crash), or the
  expression parser throws.
\<close>

datatype 'x error = InvariantFailure | InvalidPointer | ParseFailure 'x

text \<open>
  The operations of the headers that are not part of this file, taken as parameters:
  \<^verbatim>\<open>MatchExpression::shallowClone\<close>, \<^verbatim>\<open>Expression::serialize\<close>,
  \<^verbatim>\<open>Expression::getExpressionContext\<close>, the member \<^verbatim>\<open>variablesParseState\<close> of the
  expression context and \<^verbatim>\<open>Expression::parseOperand\<close>, which returns the parsed
  expression or throws (\<open>Inl\<close>). \<open>'c\<close> is the expression context, \<open>'s\<close> the variables
  parse state, \<open>'v\<close> a \<^verbatim>\<open>Value\<close> and \<open>'x\<close> the exception. A BSON element is its field
  name paired with its value.
\<close>

record ('m, 'e, 'c, 's, 'v, 'x) externals =
  shallowClone :: "'m \<Rightarrow> 'm"
  serialize :: "'e \<Rightarrow> bool \<Rightarrow> 'v"
  getExpressionContext :: "'e \<Rightarrow> 'c"
  variablesParseState :: "'c \<Rightarrow> 's"
  parseOperand :: "'c \<Rightarrow> string \<times> 'v \<Rightarrow> 's \<Rightarrow> 'x + 'e"

subsection \<open>The base class\<close>

text \<open>\<^verbatim>\<open>std::make_unique<T>\<close> of a class whose base is built by \<^verbatim>\<open>ASTNode()\<close>.\<close>

definition alloc :: "('b, 'm, 'e) heap \<Rightarrow> ('b, 'm, 'e) node_kind \<Rightarrow> ('b, 'm, 'e) heap \<times> addr" where
  "alloc h k = (h @ [\<lparr>parent = None, children = [], payload = k\<rparr>], length h)"

definition parent_of :: "('b, 'm, 'e) heap \<Rightarrow> addr \<Rightarrow> addr option" where
  "parent_of h a = parent (h ! a)"

definition isRoot :: "('b, 'm, 'e) heap \<Rightarrow> addr \<Rightarrow> bool" where
  "isRoot h a = (parent (h ! a) = None)"

text \<open>
  \<^verbatim>\<open>node->_parent = this; _children.push_back(std::move(node));\<close>
  The second assignment reads the cell the first one wrote.
\<close>

definition addChildToInternalVector ::
  "('b, 'm, 'e) heap \<Rightarrow> addr \<Rightarrow> addr option \<Rightarrow> 'x error + ('b, 'm, 'e) heap" where
  "addChildToInternalVector h this node =
     (case node of
        None \<Rightarrow> Inl InvalidPointer
      | Some c \<Rightarrow>
          if c < length h \<and> this < length h then
            (let h1 = h[c := (h ! c)\<lparr>parent := Some this\<rparr>]
             in Inr (h1[this := (h1 ! this)\<lparr>children := children (h1 ! this) @ [c]\<rparr>]))
          else Inl InvalidPointer)"

text \<open>
  The loop of \<^verbatim>\<open>ASTNode(ASTNodeVector children)\<close>:
  \<^verbatim>\<open>for (auto&& child : _children) child->_parent = this;\<close>
\<close>

fun set_parents ::
  "('b, 'm, 'e) heap \<Rightarrow> addr \<Rightarrow> addr option list \<Rightarrow> 'x error + ('b, 'm, 'e) heap" where
  "set_parents h this [] = Inr h"
| "set_parents h this (None # cs) = Inl InvalidPointer"
| "set_parents h this (Some c # cs) =
     (if c < length h then set_parents (h[c := (h ! c)\<lparr>parent := Some this\<rparr>]) this cs
      else Inl InvalidPointer)"

text \<open>
  \<^verbatim>\<open>ASTNode(ASTNodeVector children) : _children(std::move(children))\<close> on the cell
  \<open>this\<close>. A vector with a null element never survives the loop, so the stored vector
  holds addresses.
\<close>

definition ASTNode_ctor ::
  "('b, 'm, 'e) heap \<Rightarrow> addr \<Rightarrow> addr option list \<Rightarrow> 'x error + ('b, 'm, 'e) heap" where
  "ASTNode_ctor h this cs =
     (case set_parents h this cs of
        Inl e \<Rightarrow> Inl e
      | Inr h' \<Rightarrow> Inr (h'[this := (h' ! this)\<lparr>children := map the cs\<rparr>]))"

subsection \<open>The concrete classes\<close>

definition new_MatchExpressionASTNode ::
  "('b, 'm, 'e) heap \<Rightarrow> 'b \<Rightarrow> 'm option \<Rightarrow> ('b, 'm, 'e) heap \<times> addr" where
  "new_MatchExpressionASTNode h bson me = alloc h (MatchExpressionASTNode bson me)"

definition new_ProjectionSliceASTNode ::
  "('b, 'm, 'e) heap \<Rightarrow> cint option \<Rightarrow> cint \<Rightarrow> ('b, 'm, 'e) heap \<times> addr" where
  "new_ProjectionSliceASTNode h skip limit = alloc h (ProjectionSliceASTNode skip limit)"

definition new_ExpressionASTNode ::
  "('b, 'm, 'e) heap \<Rightarrow> 'e option \<Rightarrow> ('b, 'm, 'e) heap \<times> addr" where
  "new_ExpressionASTNode h expr = alloc h (ExpressionASTNode expr)"

definition new_BooleanConstantASTNode ::
  "('b, 'm, 'e) heap \<Rightarrow> bool \<Rightarrow> ('b, 'm, 'e) heap \<times> addr" where
  "new_BooleanConstantASTNode h val = alloc h (BooleanConstantASTNode val)"

text \<open>\<^verbatim>\<open>ProjectionPathASTNode() {}\<close>\<close>

definition new_ProjectionPathASTNode_empty ::
  "('b, 'm, 'e) heap \<Rightarrow> ('b, 'm, 'e) heap \<times> addr" where
  "new_ProjectionPathASTNode_empty h = alloc h (ProjectionPathASTNode [])"

text \<open>
  \<^verbatim>\<open>ProjectionPathASTNode(ASTNodeVector children, std::vector<std::string> fieldNames)\<close>:
  the base constructor, the member, then
  \<^verbatim>\<open>invariant(_children.size() == _fieldNames.size())\<close>.
\<close>

definition new_ProjectionPathASTNode ::
  "('b, 'm, 'e) heap \<Rightarrow> addr option list \<Rightarrow> string list \<Rightarrow>
   'x error + ('b, 'm, 'e) heap \<times> addr" where
  "new_ProjectionPathASTNode h cs fieldNames =
     (let (h0, this) = alloc h (ProjectionPathASTNode fieldNames)
      in case ASTNode_ctor h0 this cs of
           Inl e \<Rightarrow> Inl e
         | Inr h1 \<Rightarrow>
             if length (children (h1 ! this)) = length fieldNames then Inr (h1, this)
             else Inl InvariantFailure)"

text \<open>
  \<^verbatim>\<open>ProjectionPositionalASTNode(std::unique_ptr<MatchExpressionASTNode> child)\<close>:
  \<^verbatim>\<open>invariant(child); addChildToInternalVector(std::move(child));\<close>
  The static type of the parameter says what a non-null \<open>child\<close> points to.
\<close>

definition new_ProjectionPositionalASTNode ::
  "('b, 'm, 'e) heap \<Rightarrow> addr option \<Rightarrow> 'x error + ('b, 'm, 'e) heap \<times> addr" where
  "new_ProjectionPositionalASTNode h child =
     (let (h0, this) = alloc h ProjectionPositionalASTNode
      in if child = None then Inl InvariantFailure
         else case addChildToInternalVector h0 this child of
                Inl e \<Rightarrow> Inl e
              | Inr h1 \<Rightarrow> Inr (h1, this))"

definition new_ProjectionElemMatchASTNode ::
  "('b, 'm, 'e) heap \<Rightarrow> addr option \<Rightarrow> 'x error + ('b, 'm, 'e) heap \<times> addr" where
  "new_ProjectionElemMatchASTNode h child =
     (let (h0, this) = alloc h ProjectionElemMatchASTNode
      in if child = None then Inl InvariantFailure
         else case addChildToInternalVector h0 this child of
                Inl e \<Rightarrow> Inl e
              | Inr h1 \<Rightarrow> Inr (h1, this))"

text \<open>
  The loop of \<^verbatim>\<open>getChild\<close>:
  \<^verbatim>\<open>for (size_t i = 0; i < _fieldNames.size(); ++i)
     if (_fieldNames[i] == fieldName) return _children[i].get();
   return nullptr;\<close>
\<close>

function getChild_loop :: "string list \<Rightarrow> addr list \<Rightarrow> string \<Rightarrow> nat \<Rightarrow> addr option" where
  "getChild_loop fieldNames cs fieldName i =
     (if i < length fieldNames then
        (if fieldNames ! i = fieldName then Some (cs ! i)
         else getChild_loop fieldNames cs fieldName (Suc i))
      else None)"
  by pat_completeness auto
termination
  by (relation "measure (\<lambda>(fieldNames, cs, fieldName, i). length fieldNames - i)") auto

declare getChild_loop.simps [simp del]

text \<open>
  \<^verbatim>\<open>getChild\<close> is a member of \<^verbatim>\<open>ProjectionPathASTNode\<close>: called through a pointer to
  anything else it is undefined behaviour. It starts with
  \<^verbatim>\<open>invariant(_fieldNames.size() == _children.size())\<close>, so the loop reads
  \<^verbatim>\<open>_children[i]\<close> in range.
\<close>

definition getChild ::
  "('b, 'm, 'e) heap \<Rightarrow> addr \<Rightarrow> string \<Rightarrow> 'x error + addr option" where
  "getChild h this fieldName =
     (if this < length h then
        (case payload (h ! this) of
           ProjectionPathASTNode fieldNames \<Rightarrow>
             if length fieldNames = length (children (h ! this))
             then Inr (getChild_loop fieldNames (children (h ! this)) fieldName 0)
             else Inl InvariantFailure
         | _ \<Rightarrow> Inl InvalidPointer)
      else Inl InvalidPointer)"

text \<open>
  \<^verbatim>\<open>addChildToInternalVector(std::move(node)); _fieldNames.push_back(fieldName.toString());\<close>
\<close>

definition addChild ::
  "('b, 'm, 'e) heap \<Rightarrow> addr \<Rightarrow> string \<Rightarrow> addr option \<Rightarrow> 'x error + ('b, 'm, 'e) heap" where
  "addChild h this fieldName node =
     (if this < length h then
        (case payload (h ! this) of
           ProjectionPathASTNode _ \<Rightarrow>
             (case addChildToInternalVector h this node of
                Inl e \<Rightarrow> Inl e
              | Inr h1 \<Rightarrow>
                  (case payload (h1 ! this) of
                     ProjectionPathASTNode fieldNames \<Rightarrow>
                       Inr (h1[this := (h1 ! this)
                              \<lparr>payload := ProjectionPathASTNode (fieldNames @ [fieldName])\<rparr>])
                   | _ \<Rightarrow> Inl InvalidPointer))
         | _ \<Rightarrow> Inl InvalidPointer)
      else Inl InvalidPointer)"

subsection \<open>The visitor\<close>

text \<open>
  \<^verbatim>\<open>ProjectionASTVisitor\<close> declares one \<^verbatim>\<open>visit\<close> overload for each concrete class; a
  visitor is the record of the seven, each a transformer of the visitor's state given
  the node. \<^verbatim>\<open>acceptVisitor\<close> is virtual: the class of the node selects the override,
  and the override's \<^verbatim>\<open>visitor->visit(this)\<close> selects the overload by the static type
  of \<^verbatim>\<open>this\<close>.
\<close>

record 'w ProjectionASTVisitor =
  visit_MatchExpressionASTNode :: "addr \<Rightarrow> 'w \<Rightarrow> 'w"
  visit_ProjectionPathASTNode :: "addr \<Rightarrow> 'w \<Rightarrow> 'w"
  visit_ProjectionPositionalASTNode :: "addr \<Rightarrow> 'w \<Rightarrow> 'w"
  visit_ProjectionSliceASTNode :: "addr \<Rightarrow> 'w \<Rightarrow> 'w"
  visit_ProjectionElemMatchASTNode :: "addr \<Rightarrow> 'w \<Rightarrow> 'w"
  visit_ExpressionASTNode :: "addr \<Rightarrow> 'w \<Rightarrow> 'w"
  visit_BooleanConstantASTNode :: "addr \<Rightarrow> 'w \<Rightarrow> 'w"

definition acceptVisitor ::
  "('b, 'm, 'e) heap \<Rightarrow> addr \<Rightarrow> 'w ProjectionASTVisitor \<Rightarrow> 'w \<Rightarrow> 'w" where
  "acceptVisitor h this visitor w =
     (case payload (h ! this) of
        MatchExpressionASTNode _ _ \<Rightarrow> visit_MatchExpressionASTNode visitor this w
      | ProjectionPathASTNode _ \<Rightarrow> visit_ProjectionPathASTNode visitor this w
      | ProjectionPositionalASTNode \<Rightarrow> visit_ProjectionPositionalASTNode visitor this w
      | ProjectionSliceASTNode _ _ \<Rightarrow> visit_ProjectionSliceASTNode visitor this w
      | ProjectionElemMatchASTNode \<Rightarrow> visit_ProjectionElemMatchASTNode visitor this w
      | ExpressionASTNode _ \<Rightarrow> visit_ExpressionASTNode visitor this w
      | BooleanConstantASTNode _ \<Rightarrow> visit_BooleanConstantASTNode visitor this w)"

subsection \<open>Cloning\<close>

text \<open>
  What the copy constructor of each concrete class does after the base class is copied.
  \<^verbatim>\<open>MatchExpressionASTNode\<close>: \<^verbatim>\<open>_bson(other._bson),
  _matchExpr(other._matchExpr->shallowClone())\<close>. \<^verbatim>\<open>ExpressionASTNode\<close>:
  \<^verbatim>\<open>bob << "" << other._expr->serialize(false)\<close>, then \<^verbatim>\<open>parseOperand\<close> of the
  first element of the built object under the expression context of \<^verbatim>\<open>other._expr\<close>
  and the \<^verbatim>\<open>variablesParseState\<close> of that context. The other classes have the
  implicit copy constructor, which copies the members.
\<close>

definition copy_members ::
  "('m, 'e, 'c, 's, 'v, 'x) externals \<Rightarrow> ('b, 'm, 'e) node_kind \<Rightarrow>
   'x error + ('b, 'm, 'e) node_kind" where
  "copy_members X k =
     (case k of
        MatchExpressionASTNode bson me \<Rightarrow>
          (case me of
             None \<Rightarrow> Inl InvalidPointer
           | Some m \<Rightarrow> Inr (MatchExpressionASTNode bson (Some (shallowClone X m))))
      | ExpressionASTNode expr \<Rightarrow>
          (case expr of
             None \<Rightarrow> Inl InvalidPointer
           | Some e \<Rightarrow>
               (case parseOperand X (getExpressionContext X e) ('''', serialize X e False)
                       (variablesParseState X (getExpressionContext X e)) of
                  Inl x \<Rightarrow> Inl (ParseFailure x)
                | Inr e' \<Rightarrow> Inr (ExpressionASTNode (Some e'))))
      | _ \<Rightarrow> Inr k)"

text \<open>
  \<^verbatim>\<open>clone()\<close> is \<^verbatim>\<open>std::make_unique<T>(*this)\<close> in every class: a new cell, whose base
  is built by \<^verbatim>\<open>ASTNode(const ASTNode& other) : _parent(nullptr)\<close>, which runs
  \<^verbatim>\<open>for (auto&& child : other._children) addChildToInternalVector(child->clone());\<close>
  and then the members are copied. The new cell carries the members of the original
  until they are: nothing reads them in between. An exception leaves the
  constructor and the new cells are destroyed, so a failed clone returns the error only.
  The recursion follows pointers in the store, so it takes fuel: \<open>None\<close> is "out of
  fuel", the depth of the recursion being the depth of the tree.
\<close>

fun clone ::
  "nat \<Rightarrow> ('m, 'e, 'c, 's, 'v, 'x) externals \<Rightarrow> ('b, 'm, 'e) heap \<Rightarrow> addr \<Rightarrow>
   ('x error + ('b, 'm, 'e) heap \<times> addr) option"
and clone_children ::
  "nat \<Rightarrow> ('m, 'e, 'c, 's, 'v, 'x) externals \<Rightarrow> ('b, 'm, 'e) heap \<Rightarrow> addr \<Rightarrow> addr list \<Rightarrow>
   ('x error + ('b, 'm, 'e) heap) option"
where
  "clone 0 X h a = None"
| "clone (Suc fuel) X h a =
     (if a < length h then
        (let (h0, this) = alloc h (payload (h ! a))
         in case clone_children fuel X h0 this (children (h ! a)) of
              None \<Rightarrow> None
            | Some (Inl e) \<Rightarrow> Some (Inl e)
            | Some (Inr h1) \<Rightarrow>
                (case copy_members X (payload (h ! a)) of
                   Inl e \<Rightarrow> Some (Inl e)
                 | Inr k \<Rightarrow> Some (Inr (h1[this := (h1 ! this)\<lparr>payload := k\<rparr>], this))))
      else Some (Inl InvalidPointer))"
| "clone_children fuel X h this [] = Some (Inr h)"
| "clone_children fuel X h this (c # cs) =
     (case clone fuel X h c of
        None \<Rightarrow> None
      | Some (Inl e) \<Rightarrow> Some (Inl e)
      | Some (Inr (h', c')) \<Rightarrow>
          (case addChildToInternalVector h' this (Some c') of
             Inl e \<Rightarrow> Some (Inl e)
           | Inr h'' \<Rightarrow> clone_children fuel X h'' this cs))"

subsection \<open>Move construction\<close>

text \<open>
  \<^verbatim>\<open>ASTNode(ASTNode&&) = default;\<close> moves member by member into the cell \<open>this\<close>:
  \<^verbatim>\<open>_parent\<close>, a raw pointer, is copied, and \<^verbatim>\<open>_children\<close> is move-constructed, which
  leaves the vector of \<open>other\<close> empty. No child is visited: the \<^verbatim>\<open>_parent\<close> of each child
  still points to \<open>other\<close>.
\<close>

definition ASTNode_move_ctor ::
  "('b, 'm, 'e) heap \<Rightarrow> addr \<Rightarrow> addr \<Rightarrow> ('b, 'm, 'e) heap" where
  "ASTNode_move_ctor h this other =
     (let h1 = h[this := (h ! this)\<lparr>parent := parent (h ! other), children := children (h ! other)\<rparr>]
      in h1[other := (h1 ! other)\<lparr>children := []\<rparr>])"

text \<open>
  The members that the implicit move constructor of a class leaves in the object moved
  from: \<^verbatim>\<open>_fieldNames\<close> is a vector and is left empty, the scalars are copied.
  \<^verbatim>\<open>MatchExpressionASTNode\<close> and \<^verbatim>\<open>ExpressionASTNode\<close> declare a copy constructor, so
  they have no move constructor: \<open>None\<close>.
\<close>

fun moved_from :: "('b, 'm, 'e) node_kind \<Rightarrow> ('b, 'm, 'e) node_kind option" where
  "moved_from (ProjectionPathASTNode fieldNames) = Some (ProjectionPathASTNode [])"
| "moved_from ProjectionPositionalASTNode = Some ProjectionPositionalASTNode"
| "moved_from (ProjectionSliceASTNode skip limit) = Some (ProjectionSliceASTNode skip limit)"
| "moved_from ProjectionElemMatchASTNode = Some ProjectionElemMatchASTNode"
| "moved_from (BooleanConstantASTNode val) = Some (BooleanConstantASTNode val)"
| "moved_from (MatchExpressionASTNode bson me) = None"
| "moved_from (ExpressionASTNode expr) = None"

text \<open>
  \<^verbatim>\<open>std::make_unique<T>(std::move(*other))\<close>, \<open>T\<close> being the class of \<open>other\<close>: a new
  cell built by the move constructor. In a class that has none the rvalue binds to the
  copy constructor, which is what \<^verbatim>\<open>clone\<close> runs.
\<close>

definition make_unique_move ::
  "nat \<Rightarrow> ('m, 'e, 'c, 's, 'v, 'x) externals \<Rightarrow> ('b, 'm, 'e) heap \<Rightarrow> addr \<Rightarrow>
   ('x error + ('b, 'm, 'e) heap \<times> addr) option" where
  "make_unique_move fuel X h other =
     (if other < length h then
        (case moved_from (payload (h ! other)) of
           None \<Rightarrow> clone fuel X h other
         | Some k0 \<Rightarrow>
             (let (h0, this) = alloc h (payload (h ! other));
                  h1 = ASTNode_move_ctor h0 this other
              in Some (Inr (h1[other := (h1 ! other)\<lparr>payload := k0\<rparr>], this))))
      else Some (Inl InvalidPointer))"

section \<open>Specification-side notions\<close>

subsection \<open>The tree a root stands for\<close>

text \<open>
  The value read off a node by following \<^verbatim>\<open>children()\<close>: the members of the node and
  the values of its children, in order.
\<close>

datatype ('b, 'm, 'e) ast = Node "('b, 'm, 'e) node_kind" "('b, 'm, 'e) ast list"

text \<open>
  \<open>is_tree h p a t\<close>: in the store \<open>h\<close> the cell \<open>a\<close> exists, its parent field is \<open>p\<close>,
  its members are those of the root of \<open>t\<close>, no child is listed twice, and every child
  has \<open>a\<close> as its parent and is, recursively, the root of the corresponding subtree of
  \<open>t\<close>.
\<close>

fun is_tree :: "('b, 'm, 'e) heap \<Rightarrow> addr option \<Rightarrow> addr \<Rightarrow> ('b, 'm, 'e) ast \<Rightarrow> bool"
and are_trees ::
  "('b, 'm, 'e) heap \<Rightarrow> addr option \<Rightarrow> addr list \<Rightarrow> ('b, 'm, 'e) ast list \<Rightarrow> bool"
where
  "is_tree h p a (Node k ts) =
     (a < length h \<and> parent (h ! a) = p \<and> payload (h ! a) = k \<and>
      distinct (children (h ! a)) \<and> are_trees h (Some a) (children (h ! a)) ts)"
| "are_trees h p [] [] = True"
| "are_trees h p (c # cs) (t # ts) = (is_tree h p c t \<and> are_trees h p cs ts)"
| "are_trees h p [] (t # ts) = False"
| "are_trees h p (c # cs) [] = False"

fun nodes :: "('b, 'm, 'e) ast \<Rightarrow> nat" where
  "nodes (Node k ts) = Suc (sum_list (map nodes ts))"

fun depth :: "('b, 'm, 'e) ast \<Rightarrow> nat"
and depths :: "('b, 'm, 'e) ast list \<Rightarrow> nat"
where
  "depth (Node k ts) = Suc (depths ts)"
| "depths [] = 0"
| "depths (t # ts) = max (depth t) (depths ts)"

text \<open>The cells reachable from \<open>a\<close> through \<^verbatim>\<open>children()\<close>.\<close>

inductive_set subtree :: "('b, 'm, 'e) heap \<Rightarrow> addr \<Rightarrow> addr set"
  for h :: "('b, 'm, 'e) heap" and a :: addr
where
  subtree_root: "a \<in> subtree h a"
| subtree_child:
    "x \<in> subtree h a \<Longrightarrow> x < length h \<Longrightarrow> c \<in> set (children (h ! x)) \<Longrightarrow> c \<in> subtree h a"

subsection \<open>What a clone is expected to be\<close>

text \<open>
  The cells a clone of \<open>t\<close> occupies when the first free address is \<open>b\<close>: the root, then
  the clones of the children one after the other.
\<close>

fun roots :: "addr \<Rightarrow> ('b, 'm, 'e) ast list \<Rightarrow> addr list" where
  "roots b [] = []"
| "roots b (t # ts) = b # roots (b + nodes t) ts"

fun layout :: "addr \<Rightarrow> addr option \<Rightarrow> ('b, 'm, 'e) ast \<Rightarrow> ('b, 'm, 'e) heap"
and layouts :: "addr \<Rightarrow> addr \<Rightarrow> ('b, 'm, 'e) ast list \<Rightarrow> ('b, 'm, 'e) heap"
where
  "layout b p (Node k ts) =
     \<lparr>parent = p, children = roots (Suc b) ts, payload = k\<rparr> # layouts (Suc b) b ts"
| "layouts b this [] = []"
| "layouts b this (t # ts) = layout b (Some this) t @ layouts (b + nodes t) this ts"

text \<open>The value of the clone, or the first failure in the order the code meets them.\<close>

fun copy_ast ::
  "('m, 'e, 'c, 's, 'v, 'x) externals \<Rightarrow> ('b, 'm, 'e) ast \<Rightarrow> 'x error + ('b, 'm, 'e) ast"
and copy_asts ::
  "('m, 'e, 'c, 's, 'v, 'x) externals \<Rightarrow> ('b, 'm, 'e) ast list \<Rightarrow>
   'x error + ('b, 'm, 'e) ast list"
where
  "copy_ast X (Node k ts) =
     (case copy_asts X ts of
        Inl e \<Rightarrow> Inl e
      | Inr ts' \<Rightarrow> (case copy_members X k of Inl e \<Rightarrow> Inl e | Inr k' \<Rightarrow> Inr (Node k' ts')))"
| "copy_asts X [] = Inr []"
| "copy_asts X (t # ts) =
     (case copy_ast X t of
        Inl e \<Rightarrow> Inl e
      | Inr t' \<Rightarrow> (case copy_asts X ts of Inl e \<Rightarrow> Inl e | Inr ts' \<Rightarrow> Inr (t' # ts')))"

text \<open>The members of the nodes of a tree, in the order of the traversal.\<close>

fun kinds :: "('b, 'm, 'e) ast \<Rightarrow> ('b, 'm, 'e) node_kind list"
and kinds_list :: "('b, 'm, 'e) ast list \<Rightarrow> ('b, 'm, 'e) node_kind list"
where
  "kinds (Node k ts) = k # kinds_list ts"
| "kinds_list [] = []"
| "kinds_list (t # ts) = kinds t @ kinds_list ts"

text \<open>
  Same shape: the same concrete class, equal field names, equal skip and limit, equal
  boolean, and as many children, pairwise of the same shape.
\<close>

fun same_kind :: "('b, 'm, 'e) node_kind \<Rightarrow> ('b, 'm, 'e) node_kind \<Rightarrow> bool" where
  "same_kind (MatchExpressionASTNode _ _) (MatchExpressionASTNode _ _) = True"
| "same_kind (ProjectionPathASTNode ns) (ProjectionPathASTNode ns') = (ns = ns')"
| "same_kind ProjectionPositionalASTNode ProjectionPositionalASTNode = True"
| "same_kind (ProjectionSliceASTNode s l) (ProjectionSliceASTNode s' l') = (s = s' \<and> l = l')"
| "same_kind ProjectionElemMatchASTNode ProjectionElemMatchASTNode = True"
| "same_kind (ExpressionASTNode _) (ExpressionASTNode _) = True"
| "same_kind (BooleanConstantASTNode v) (BooleanConstantASTNode v') = (v = v')"
| "same_kind _ _ = False"

fun same_shape :: "('b, 'm, 'e) ast \<Rightarrow> ('b, 'm, 'e) ast \<Rightarrow> bool"
and same_shapes :: "('b, 'm, 'e) ast list \<Rightarrow> ('b, 'm, 'e) ast list \<Rightarrow> bool"
where
  "same_shape (Node k ts) (Node k' ts') = (same_kind k k' \<and> same_shapes ts ts')"
| "same_shapes [] [] = True"
| "same_shapes (t # ts) (t' # ts') = (same_shape t t' \<and> same_shapes ts ts')"
| "same_shapes [] (t' # ts') = False"
| "same_shapes (t # ts) [] = False"

text \<open>The \<^verbatim>\<open>BSONObj\<close> handles held in a tree, in the order of the traversal.\<close>

fun buffers :: "('b, 'm, 'e) ast \<Rightarrow> 'b list"
and buffers_list :: "('b, 'm, 'e) ast list \<Rightarrow> 'b list"
where
  "buffers (Node k ts) =
     (case k of MatchExpressionASTNode bson _ \<Rightarrow> [bson] | _ \<Rightarrow> []) @ buffers_list ts"
| "buffers_list [] = []"
| "buffers_list (t # ts) = buffers t @ buffers_list ts"

subsection \<open>The objects a tree points to\<close>

text \<open>
  \<^verbatim>\<open>_matchExpr\<close> and \<^verbatim>\<open>_expr\<close> are pointers: a value of the type \<open>'m\<close> or \<open>'e\<close> stands for
  the object pointed to, and two members point to the same object when the values are
  equal. The objects of a tree, null pointers left out, in the order of the traversal.
\<close>

fun match_objects :: "('b, 'm, 'e) ast \<Rightarrow> 'm list"
and match_objects_list :: "('b, 'm, 'e) ast list \<Rightarrow> 'm list"
where
  "match_objects (Node k ts) =
     (case k of MatchExpressionASTNode _ (Some m) \<Rightarrow> [m] | _ \<Rightarrow> []) @ match_objects_list ts"
| "match_objects_list [] = []"
| "match_objects_list (t # ts) = match_objects t @ match_objects_list ts"

fun expr_objects :: "('b, 'm, 'e) ast \<Rightarrow> 'e list"
and expr_objects_list :: "('b, 'm, 'e) ast list \<Rightarrow> 'e list"
where
  "expr_objects (Node k ts) =
     (case k of ExpressionASTNode (Some e) \<Rightarrow> [e] | _ \<Rightarrow> []) @ expr_objects_list ts"
| "expr_objects_list [] = []"
| "expr_objects_list (t # ts) = expr_objects t @ expr_objects_list ts"

text \<open>
  The call the copy constructor of \<^verbatim>\<open>ExpressionASTNode\<close> makes for the expression \<open>e\<close> of
  the original: \<^verbatim>\<open>Expression::parseOperand(other._expr->getExpressionContext(),
  bob.obj().firstElement(), other._expr->getExpressionContext()->variablesParseState)\<close>.
\<close>

definition reparsed :: "('m, 'e, 'c, 's, 'v, 'x) externals \<Rightarrow> 'e \<Rightarrow> 'x + 'e" where
  "reparsed X e =
     parseOperand X (getExpressionContext X e) ('''', serialize X e False)
       (variablesParseState X (getExpressionContext X e))"

text \<open>
  \<^verbatim>\<open>shallowClone\<close> and \<^verbatim>\<open>parseOperand\<close> are not part of this file. Where a theorem
  assumes \<open>returns_new_objects X Lm Le\<close>, each of them returns a new object, one that is
  not among the objects \<open>Lm\<close>, \<open>Le\<close> alive at the call, and the expression the parser
  returns keeps the expression context it was parsed under, which is what
  \<^verbatim>\<open>getExpressionContext\<close> reads from it.
\<close>

definition returns_new_objects ::
  "('m, 'e, 'c, 's, 'v, 'x) externals \<Rightarrow> 'm set \<Rightarrow> 'e set \<Rightarrow> bool" where
  "returns_new_objects X Lm Le \<longleftrightarrow>
     (\<forall>m. shallowClone X m \<notin> Lm) \<and>
     (\<forall>c el s e'. parseOperand X c el s = Inr e' \<longrightarrow> e' \<notin> Le \<and> getExpressionContext X e' = c)"

subsection \<open>A visitor that records its calls\<close>

datatype visit_op =
    Visit_MatchExpressionASTNode
  | Visit_ProjectionPathASTNode
  | Visit_ProjectionPositionalASTNode
  | Visit_ProjectionSliceASTNode
  | Visit_ProjectionElemMatchASTNode
  | Visit_ExpressionASTNode
  | Visit_BooleanConstantASTNode

definition recorder :: "(visit_op \<times> addr) list ProjectionASTVisitor" where
  "recorder =
     \<lparr>visit_MatchExpressionASTNode = (\<lambda>n w. w @ [(Visit_MatchExpressionASTNode, n)]),
      visit_ProjectionPathASTNode = (\<lambda>n w. w @ [(Visit_ProjectionPathASTNode, n)]),
      visit_ProjectionPositionalASTNode = (\<lambda>n w. w @ [(Visit_ProjectionPositionalASTNode, n)]),
      visit_ProjectionSliceASTNode = (\<lambda>n w. w @ [(Visit_ProjectionSliceASTNode, n)]),
      visit_ProjectionElemMatchASTNode = (\<lambda>n w. w @ [(Visit_ProjectionElemMatchASTNode, n)]),
      visit_ExpressionASTNode = (\<lambda>n w. w @ [(Visit_ExpressionASTNode, n)]),
      visit_BooleanConstantASTNode = (\<lambda>n w. w @ [(Visit_BooleanConstantASTNode, n)])\<rparr>"

text \<open>The overload declared for each concrete class.\<close>

fun declared_for :: "('b, 'm, 'e) node_kind \<Rightarrow> visit_op" where
  "declared_for (MatchExpressionASTNode _ _) = Visit_MatchExpressionASTNode"
| "declared_for (ProjectionPathASTNode _) = Visit_ProjectionPathASTNode"
| "declared_for ProjectionPositionalASTNode = Visit_ProjectionPositionalASTNode"
| "declared_for (ProjectionSliceASTNode _ _) = Visit_ProjectionSliceASTNode"
| "declared_for ProjectionElemMatchASTNode = Visit_ProjectionElemMatchASTNode"
| "declared_for (ExpressionASTNode _) = Visit_ExpressionASTNode"
| "declared_for (BooleanConstantASTNode _) = Visit_BooleanConstantASTNode"

subsection \<open>Concrete inputs\<close>

text \<open>
  A toy instance of the external operations: expressions, values, match expressions and
  exceptions are strings, serialising is the identity, contexts are numbers, and the
  parser rejects the one value \<open>''$bad''\<close>.
\<close>

definition toy :: "(string, string, nat, nat, string, string) externals" where
  "toy = \<lparr>shallowClone = (\<lambda>m. m),
          serialize = (\<lambda>e explain. e),
          getExpressionContext = (\<lambda>e. 0),
          variablesParseState = (\<lambda>c. c),
          parseOperand = (\<lambda>c el s. if snd el = ''$bad'' then Inl ''unparsable'' else Inr (snd el))\<rparr>"

type_synonym toy_heap = "(nat, string, string) heap"

text \<open>
  The tree \<^verbatim>\<open>{a: true, b: {$slice: [2, 5]}}\<close>: the boolean node at 0, the slice node at 1
  and the path node that owns both at 2.
\<close>

definition example_heap :: toy_heap where
  "example_heap =
     [\<lparr>parent = Some 2, children = [], payload = BooleanConstantASTNode True\<rparr>,
      \<lparr>parent = Some 2, children = [], payload = ProjectionSliceASTNode (Some 2) 5\<rparr>,
      \<lparr>parent = None, children = [0, 1], payload = ProjectionPathASTNode [''a'', ''b'']\<rparr>]"

definition example_tree :: "(nat, string, string) ast" where
  "example_tree =
     Node (ProjectionPathASTNode [''a'', ''b''])
       [Node (BooleanConstantASTNode True) [], Node (ProjectionSliceASTNode (Some 2) 5) []]"

text \<open>
  The tree \<^verbatim>\<open>{"a.$": 1}\<close> of a query on \<^verbatim>\<open>a\<close>: the match expression node at 0, with
  the handle 7 on its buffer, owned by the positional node at 1.
\<close>

definition positional_heap :: toy_heap where
  "positional_heap =
     [\<lparr>parent = Some 1, children = [],
        payload = MatchExpressionASTNode 7 (Some ''{a: {$gt: 1}}'')\<rparr>,
      \<lparr>parent = None, children = [0], payload = ProjectionPositionalASTNode\<rparr>]"

definition positional_tree :: "(nat, string, string) ast" where
  "positional_tree =
     Node ProjectionPositionalASTNode
       [Node (MatchExpressionASTNode 7 (Some ''{a: {$gt: 1}}'')) []]"

text \<open>A path node with the field name \<^verbatim>\<open>a\<close> twice.\<close>

definition duplicate_heap :: toy_heap where
  "duplicate_heap =
     [\<lparr>parent = Some 2, children = [], payload = BooleanConstantASTNode True\<rparr>,
      \<lparr>parent = Some 2, children = [], payload = BooleanConstantASTNode False\<rparr>,
      \<lparr>parent = None, children = [0, 1], payload = ProjectionPathASTNode [''a'', ''a'']\<rparr>]"

text \<open>
  Two path nodes, the inner one at 0 owned by the outer one at 1 under the name
  \<^verbatim>\<open>a\<close>, and the same cells after \<^verbatim>\<open>addChild("x", outer)\<close> was called on the inner node
  with the pointer that owns the outer one.
\<close>

definition nested_heap :: toy_heap where
  "nested_heap =
     [\<lparr>parent = Some 1, children = [], payload = ProjectionPathASTNode []\<rparr>,
      \<lparr>parent = None, children = [0], payload = ProjectionPathASTNode [''a'']\<rparr>]"

definition cycle_heap :: toy_heap where
  "cycle_heap =
     [\<lparr>parent = Some 1, children = [1], payload = ProjectionPathASTNode [''x'']\<rparr>,
      \<lparr>parent = Some 0, children = [0], payload = ProjectionPathASTNode [''a'']\<rparr>]"

text \<open>
  The store \<open>example_heap\<close> after a path node was move-constructed from its root: the new
  node at 3 holds the children, which still name the node at 2 as their parent.
\<close>

definition moved_heap :: toy_heap where
  "moved_heap =
     [\<lparr>parent = Some 2, children = [], payload = BooleanConstantASTNode True\<rparr>,
      \<lparr>parent = Some 2, children = [], payload = ProjectionSliceASTNode (Some 2) 5\<rparr>,
      \<lparr>parent = None, children = [], payload = ProjectionPathASTNode []\<rparr>,
      \<lparr>parent = None, children = [0, 1], payload = ProjectionPathASTNode [''a'', ''b'']\<rparr>]"

text \<open>
  A toy instance of the external operations in which objects have an identity: a match
  expression is a number, an expression is a pair of its number and of the number of the
  expression context it holds. The objects numbered below 100 are the ones alive;
  \<^verbatim>\<open>shallowClone\<close> returns the object 100 further, and the parser returns the object 100,
  which holds the context it was given. A context is a cell of a store of contexts,
  here a function from the numbers of the contexts to what they hold.
\<close>

definition toy_objects :: "(nat, nat \<times> nat, nat, nat, string, string) externals" where
  "toy_objects =
     \<lparr>shallowClone = (\<lambda>m. m + 100),
      serialize = (\<lambda>e explain. ''{$literal: 1}''),
      getExpressionContext = snd,
      variablesParseState = (\<lambda>c. c),
      parseOperand = (\<lambda>c el s. Inr (100, c))\<rparr>"

definition example_contexts :: "nat \<Rightarrow> string" where
  "example_contexts = (\<lambda>c. ''simple'')"

text \<open>What the match expressions and the expressions hold, as stores of the same kind.\<close>

definition example_matches :: "nat \<Rightarrow> string" where
  "example_matches = (\<lambda>m. ''{a: 1}'')"

definition example_expressions :: "nat \<times> nat \<Rightarrow> string" where
  "example_expressions = (\<lambda>e. ''$x'')"

type_synonym object_heap = "(nat, nat, nat \<times> nat) heap"

text \<open>
  The tree \<^verbatim>\<open>{a: <expression>, b: {$elemMatch: ...}}\<close>: the expression node at 0 (the
  expression 1, parsed under the context 3), the match expression node at 1 (the match
  expression 2, on the buffer 7) owned by the element match node at 2, and the path node
  that owns both at 3; then the store after the path node was cloned, and the trees the
  two roots stand for.
\<close>

definition objects_heap :: object_heap where
  "objects_heap =
     [\<lparr>parent = Some 3, children = [], payload = ExpressionASTNode (Some (1, 3))\<rparr>,
      \<lparr>parent = Some 2, children = [], payload = MatchExpressionASTNode 7 (Some 2)\<rparr>,
      \<lparr>parent = Some 3, children = [1], payload = ProjectionElemMatchASTNode\<rparr>,
      \<lparr>parent = None, children = [0, 2], payload = ProjectionPathASTNode [''a'', ''b'']\<rparr>]"

definition objects_clone_heap :: object_heap where
  "objects_clone_heap =
     objects_heap @
       [\<lparr>parent = None, children = [5, 6], payload = ProjectionPathASTNode [''a'', ''b'']\<rparr>,
        \<lparr>parent = Some 4, children = [], payload = ExpressionASTNode (Some (100, 3))\<rparr>,
        \<lparr>parent = Some 4, children = [7], payload = ProjectionElemMatchASTNode\<rparr>,
        \<lparr>parent = Some 6, children = [], payload = MatchExpressionASTNode 7 (Some 102)\<rparr>]"

definition objects_tree :: "(nat, nat, nat \<times> nat) ast" where
  "objects_tree =
     Node (ProjectionPathASTNode [''a'', ''b''])
       [Node (ExpressionASTNode (Some (1, 3))) [],
        Node ProjectionElemMatchASTNode [Node (MatchExpressionASTNode 7 (Some 2)) []]]"

definition objects_clone_tree :: "(nat, nat, nat \<times> nat) ast" where
  "objects_clone_tree =
     Node (ProjectionPathASTNode [''a'', ''b''])
       [Node (ExpressionASTNode (Some (100, 3))) [],
        Node ProjectionElemMatchASTNode [Node (MatchExpressionASTNode 7 (Some 102)) []]]"

subsection \<open>The stores a client can build\<close>

text \<open>
  The stores reached from the empty one by the constructors, \<^verbatim>\<open>addChild\<close> and
  \<^verbatim>\<open>clone\<close>. A \<^verbatim>\<open>std::unique_ptr\<close> handed to a constructor or to \<^verbatim>\<open>addChild\<close> owns its
  node: the node is in no vector of children, so it has no parent, and one pointer is not
  moved from twice, so the children of a vector are distinct. A child given to a
  positional or an element match node has the static type \<^verbatim>\<open>MatchExpressionASTNode\<close>.
  \<^verbatim>\<open>addChild\<close> and \<^verbatim>\<open>clone\<close> are called through any pointer into the store: the header
  checks nothing about the node \<^verbatim>\<open>addChild\<close> is called on, which may be the node it is
  handed or a node below it. A constructor that fails builds nothing. Move construction
  is modelled apart (\<open>make_unique_move\<close>) and is not one of the rules: it makes a second
  object out of a node and leaves the first one behind, emptied, so the stores it reaches
  are not stores of nodes as they were constructed.
\<close>

inductive built :: "('m, 'e, 'c, 's, 'v, 'x) externals \<Rightarrow> ('b, 'm, 'e) heap \<Rightarrow> bool"
  for X :: "('m, 'e, 'c, 's, 'v, 'x) externals"
where
  built_empty: "built X []"
| built_MatchExpression:
    "built X h \<Longrightarrow> built X (fst (new_MatchExpressionASTNode h bson me))"
| built_Slice:
    "built X h \<Longrightarrow> built X (fst (new_ProjectionSliceASTNode h skip limit))"
| built_Expression:
    "built X h \<Longrightarrow> built X (fst (new_ExpressionASTNode h expr))"
| built_BooleanConstant:
    "built X h \<Longrightarrow> built X (fst (new_BooleanConstantASTNode h val))"
| built_Path_empty:
    "built X h \<Longrightarrow> built X (fst (new_ProjectionPathASTNode_empty h))"
| built_Path:
    "built X h \<Longrightarrow> distinct cs \<Longrightarrow> \<forall>c \<in> set cs. c < length h \<and> isRoot h c \<Longrightarrow>
     new_ProjectionPathASTNode h (map Some cs) fieldNames = (Inr (h', a) :: 'x error + _) \<Longrightarrow>
     built X h'"
| built_Positional:
    "built X h \<Longrightarrow> c < length h \<Longrightarrow> isRoot h c \<Longrightarrow>
     payload (h ! c) = MatchExpressionASTNode bson me \<Longrightarrow>
     new_ProjectionPositionalASTNode h (Some c) = (Inr (h', a) :: 'x error + _) \<Longrightarrow>
     built X h'"
| built_ElemMatch:
    "built X h \<Longrightarrow> c < length h \<Longrightarrow> isRoot h c \<Longrightarrow>
     payload (h ! c) = MatchExpressionASTNode bson me \<Longrightarrow>
     new_ProjectionElemMatchASTNode h (Some c) = (Inr (h', a) :: 'x error + _) \<Longrightarrow>
     built X h'"
| built_addChild:
    "built X h \<Longrightarrow> node < length h \<Longrightarrow> isRoot h node \<Longrightarrow>
     addChild h this fieldName (Some node) = (Inr h' :: 'x error + _) \<Longrightarrow>
     built X h'"
| built_clone:
    "built X h \<Longrightarrow> clone fuel X h a = Some (Inr (h', a')) \<Longrightarrow> built X h'"

text \<open>
  What each class keeps about its children, and the consistent stores: in every cell no
  child is listed twice, every child listed names the cell as its parent, the cell is
  listed by the parent it names, a cell without a parent is the root of a tree, and the
  constraint of the class holds.
\<close>

definition class_inv :: "('b, 'm, 'e) heap \<Rightarrow> addr \<Rightarrow> bool" where
  "class_inv h a =
     (case payload (h ! a) of
        ProjectionPathASTNode fieldNames \<Rightarrow> length fieldNames = length (children (h ! a))
      | ProjectionPositionalASTNode \<Rightarrow>
          (\<exists>c bson me. children (h ! a) = [c] \<and> c < length h \<and>
                       payload (h ! c) = MatchExpressionASTNode bson me)
      | ProjectionElemMatchASTNode \<Rightarrow>
          (\<exists>c bson me. children (h ! a) = [c] \<and> c < length h \<and>
                       payload (h ! c) = MatchExpressionASTNode bson me)
      | _ \<Rightarrow> children (h ! a) = [])"

definition consistent :: "('b, 'm, 'e) heap \<Rightarrow> bool" where
  "consistent h =
     (\<forall>a<length h.
        distinct (children (h ! a)) \<and>
        (\<forall>c \<in> set (children (h ! a)). c < length h \<and> parent (h ! c) = Some a) \<and>
        (\<forall>p. parent (h ! a) = Some p \<longrightarrow> p < length h \<and> a \<in> set (children (h ! p))) \<and>
        (parent (h ! a) = None \<longrightarrow> (\<exists>t. is_tree h None a t)) \<and>
        class_inv h a)"

text \<open>
  \<open>adoption h cs k h'\<close>: the store \<open>h'\<close> is \<open>h\<close> with one more cell, of members \<open>k\<close>,
  which has taken the nodes \<open>cs\<close> as its children.
\<close>

definition adoption ::
  "('b, 'm, 'e) heap \<Rightarrow> addr list \<Rightarrow> ('b, 'm, 'e) node_kind \<Rightarrow> ('b, 'm, 'e) heap \<Rightarrow> bool" where
  "adoption h cs k h' \<longleftrightarrow>
     length h' = Suc (length h) \<and>
     h' ! length h = \<lparr>parent = None, children = cs, payload = k\<rparr> \<and>
     (\<forall>x<length h. h' ! x = (if x \<in> set cs then (h ! x)\<lparr>parent := Some (length h)\<rparr> else h ! x))"

definition new_cell_ok ::
  "('b, 'm, 'e) heap \<Rightarrow> addr list \<Rightarrow> ('b, 'm, 'e) node_kind \<Rightarrow> bool" where
  "new_cell_ok h cs k =
     (case k of
        ProjectionPathASTNode fieldNames \<Rightarrow> length fieldNames = length cs
      | ProjectionPositionalASTNode \<Rightarrow>
          (\<exists>c bson me. cs = [c] \<and> payload (h ! c) = MatchExpressionASTNode bson me)
      | ProjectionElemMatchASTNode \<Rightarrow>
          (\<exists>c bson me. cs = [c] \<and> payload (h ! c) = MatchExpressionASTNode bson me)
      | _ \<Rightarrow> cs = [])"

text \<open>The constraint of each class, read on the value of a tree.\<close>

fun is_match :: "('b, 'm, 'e) ast \<Rightarrow> bool" where
  "is_match (Node (MatchExpressionASTNode _ _) _) = True"
| "is_match _ = False"

fun kind_ok :: "('b, 'm, 'e) node_kind \<Rightarrow> ('b, 'm, 'e) ast list \<Rightarrow> bool" where
  "kind_ok (ProjectionPathASTNode fieldNames) ts = (length fieldNames = length ts)"
| "kind_ok ProjectionPositionalASTNode ts = (length ts = 1 \<and> is_match (hd ts))"
| "kind_ok ProjectionElemMatchASTNode ts = (length ts = 1 \<and> is_match (hd ts))"
| "kind_ok _ ts = (ts = [])"

fun ast_ok :: "('b, 'm, 'e) ast \<Rightarrow> bool"
and asts_ok :: "('b, 'm, 'e) ast list \<Rightarrow> bool"
where
  "ast_ok (Node k ts) = (kind_ok k ts \<and> asts_ok ts)"
| "asts_ok [] = True"
| "asts_ok (t # ts) = (ast_ok t \<and> asts_ok ts)"

subsection \<open>Buffers and match expressions\<close>

text \<open>
  Modelled from the spec: \<^verbatim>\<open>BSONObj\<close> and the buffer behind it (mongo/db/jsobj.h, not
  part of this file). The backing buffer is "the immutable serialized document bytes that
  a predicate tree's nodes reference rather than copy"; it "is kept alive exactly as long
  as any predicate tree referencing it is alive": a buffer has its bytes, which nothing
  writes, and the number of handles that hold it.
\<close>

record backing_buffer =
  bytes :: "8 word list"
  holders :: nat

type_synonym buffer_store = "nat \<rightharpoonup> backing_buffer"

text \<open>
  Modelled from the spec: copying a \<^verbatim>\<open>BSONObj\<close> handle ("copying the handle, not
  re-serializing") makes one more holder of the same buffer.
\<close>

definition retain :: "buffer_store \<Rightarrow> nat \<Rightarrow> buffer_store" where
  "retain \<sigma> b =
     (case \<sigma> b of None \<Rightarrow> \<sigma> | Some buf \<Rightarrow> \<sigma>(b \<mapsto> buf\<lparr>holders := Suc (holders buf)\<rparr>))"

text \<open>
  Modelled from the spec: destroying a \<^verbatim>\<open>BSONObj\<close> handle; the buffer goes with its last
  holder.
\<close>

definition release :: "buffer_store \<Rightarrow> nat \<Rightarrow> buffer_store" where
  "release \<sigma> b =
     (case \<sigma> b of
        None \<Rightarrow> \<sigma>
      | Some buf \<Rightarrow>
          if holders buf \<le> 1 then \<sigma>(b := None)
          else \<sigma>(b \<mapsto> buf\<lparr>holders := holders buf - 1\<rparr>))"

text \<open>
  Modelled from the spec: \<^verbatim>\<open>MatchExpression\<close> (mongo/db/matcher, not part of this
  file), "a match-predicate tree built from, and referencing into, that buffer": a leaf
  is a reference to \<open>len\<close> bytes at offset \<open>off\<close> of a buffer ("literal values, field-name
  strings"), an inner node an operator over predicates.
\<close>

datatype match_expression = Reference nat nat nat | Operator string "match_expression list"

text \<open>
  Modelled from the spec: \<^verbatim>\<open>MatchExpression::shallowClone\<close>, "a shallow clone of the
  predicate tree that preserves its references into that buffer".
\<close>

fun shallow_clone :: "match_expression \<Rightarrow> match_expression" where
  "shallow_clone (Reference b off len) = Reference b off len"
| "shallow_clone (Operator name ps) = Operator name (map shallow_clone ps)"

text \<open>
  Modelled from the spec: the predicate tree of "a true deep clone", whose references
  are into the copy of the bytes.
\<close>

fun retarget :: "nat \<Rightarrow> match_expression \<Rightarrow> match_expression" where
  "retarget b' (Reference b off len) = Reference b' off len"
| "retarget b' (Operator name ps) = Operator name (map (retarget b') ps)"

text \<open>Modelled from the spec: every reference of the predicate tree is into the buffer \<open>b\<close>.\<close>

fun refers_to :: "nat \<Rightarrow> match_expression \<Rightarrow> bool" where
  "refers_to b (Reference b0 off len) = (b0 = b)"
| "refers_to b (Operator name ps) = list_all (refers_to b) ps"

text \<open>
  Modelled from the spec: what "an external observer" gets from a predicate tree, the
  operators and the bytes its references stand for; nothing, when a reference is into a
  buffer that is gone or past its end.
\<close>

datatype observation = Bytes "8 word list" | Applied string "observation list"

fun observe :: "buffer_store \<Rightarrow> match_expression \<Rightarrow> observation option"
and observe_all :: "buffer_store \<Rightarrow> match_expression list \<Rightarrow> observation list option"
where
  "observe \<sigma> (Reference b off len) =
     (case \<sigma> b of
        None \<Rightarrow> None
      | Some buf \<Rightarrow>
          if off + len \<le> length (bytes buf) then Some (Bytes (take len (drop off (bytes buf))))
          else None)"
| "observe \<sigma> (Operator name ps) =
     (case observe_all \<sigma> ps of None \<Rightarrow> None | Some os \<Rightarrow> Some (Applied name os))"
| "observe_all \<sigma> [] = Some []"
| "observe_all \<sigma> (p # ps) =
     (case observe \<sigma> p of
        None \<Rightarrow> None
      | Some ob \<Rightarrow> (case observe_all \<sigma> ps of None \<Rightarrow> None | Some os \<Rightarrow> Some (ob # os)))"

text \<open>
  The copy constructor of \<^verbatim>\<open>MatchExpressionASTNode\<close> with the buffers in view:
  \<^verbatim>\<open>_bson(other._bson)\<close> copies the handle, the rest is \<open>copy_members\<close>.
\<close>

definition clone_MatchExpression ::
  "('m, 'e, 'c, 's, 'v, 'x) externals \<Rightarrow> buffer_store \<Rightarrow> (nat, 'm, 'e) node_kind \<Rightarrow>
   'x error + buffer_store \<times> (nat, 'm, 'e) node_kind" where
  "clone_MatchExpression X \<sigma> k =
     (case copy_members X k of
        Inl e \<Rightarrow> Inl e
      | Inr k' \<Rightarrow>
          (case k' of
             MatchExpressionASTNode bson me \<Rightarrow> Inr (retain \<sigma> bson, k')
           | _ \<Rightarrow> Inr (\<sigma>, k')))"

text \<open>
  Modelled from the spec: "a true deep clone" of a predicate tree and its buffer: the
  bytes copied to a new buffer \<open>b'\<close> with one holder, the references retargeted.
\<close>

definition deep_clone ::
  "buffer_store \<Rightarrow> nat \<Rightarrow> nat \<Rightarrow> match_expression \<Rightarrow> buffer_store \<times> nat \<times> match_expression" where
  "deep_clone \<sigma> b' b p =
     (\<sigma>(b' := map_option (\<lambda>buf. \<lparr>bytes = bytes buf, holders = 1\<rparr>) (\<sigma> b)), b', retarget b' p)"


text \<open>
  The toy instance over these match expressions, a buffer of four bytes with one holder,
  and a predicate with two references into it.
\<close>

definition toy_match :: "(match_expression, string, nat, nat, string, string) externals" where
  "toy_match = \<lparr>shallowClone = shallow_clone,
          serialize = (\<lambda>e explain. e),
          getExpressionContext = (\<lambda>e. 0),
          variablesParseState = (\<lambda>c. c),
          parseOperand = (\<lambda>c el s. if snd el = ''$bad'' then Inl ''unparsable'' else Inr (snd el))\<rparr>"

definition example_store :: buffer_store where
  "example_store = Map.empty(7 \<mapsto> \<lparr>bytes = [1, 2, 3, 4], holders = 1\<rparr>)"

definition example_predicate :: match_expression where
  "example_predicate = Operator ''$gt'' [Reference 7 0 1, Reference 7 1 3]"

definition match_heap :: "(nat, match_expression, string) heap" where
  "match_heap =
     [\<lparr>parent = None, children = [],
        payload = MatchExpressionASTNode 7 (Some example_predicate)\<rparr>]"

section \<open>Properties of the operations\<close>

subsection \<open>Store sizes and the root cell of a clone\<close>

lemma addChildToInternalVector_length:
  "addChildToInternalVector h this node = Inr h' \<Longrightarrow> length h' = length h"
  by (auto simp: addChildToInternalVector_def Let_def split: if_splits option.splits)

lemma clone_length:
  fixes X :: "('m, 'e, 'c, 's, 'v, 'x) externals"
  shows "clone fuel X h a = Some (Inr (h', a')) \<Longrightarrow> a' = length h \<and> length h < length h'"
  and "clone_children fuel X h this cs = Some (Inr h1) \<Longrightarrow> length h \<le> length h1"
proof (induction fuel X h a and fuel X h this cs arbitrary: h' a' and h1
       rule: clone_clone_children.induct)
  case (1 X h a)
  then show ?case by simp
next
  case (2 fuel X h a)
  from "2.prems" have a: "a < length h" by (simp split: if_splits)
  let ?h0 = "h @ [\<lparr>parent = None, children = [], payload = payload (h ! a)\<rparr>]"
  from "2.prems" a obtain h1
    where cc: "clone_children fuel X ?h0 (length h) (children (h ! a)) = Some (Inr h1)"
    by (simp add: alloc_def split: option.splits sum.splits)
  have al: "(?h0, length h) = alloc h (payload (h ! a))" by (simp add: alloc_def)
  from "2.IH"[OF a refl al cc] have l: "length ?h0 \<le> length h1" .
  from "2.prems" a cc show ?case using l
    by (auto simp: alloc_def split: sum.splits)
next
  case (3 fuel X h this)
  then show ?case by simp
next
  case (4 fuel X h this c cs)
  from "4.prems" obtain h2 c' where c: "clone fuel X h c = Some (Inr (h2, c'))"
    by (auto split: option.splits sum.splits prod.splits)
  from "4.prems" c obtain h3
    where a: "addChildToInternalVector h2 this (Some c') = (Inr h3 :: 'x error + _)"
    by (simp split: sum.splits)
  from "4.prems" c a have r: "clone_children fuel X h3 this cs = Some (Inr h1)" by simp
  from "4.IH"(1)[OF c] have "length h < length h2" by simp
  moreover from a have "length h3 = length h2" by (rule addChildToInternalVector_length)
  moreover from "4.IH"(2)[OF c _ _ a r] have "length h3 \<le> length h1" by simp
  ultimately show ?case by simp
qed

lemma addChildToInternalVector_no_abort:
  "addChildToInternalVector h this node \<noteq> Inl InvariantFailure"
  by (simp add: addChildToInternalVector_def Let_def split: option.splits)

lemma copy_members_no_abort: "copy_members X k \<noteq> Inl InvariantFailure"
  by (simp add: copy_members_def split: node_kind.splits option.splits sum.splits)

lemma clone_no_abort:
  fixes X :: "('m, 'e, 'c, 's, 'v, 'x) externals"
  shows "clone fuel X h a \<noteq> Some (Inl InvariantFailure)"
  and "clone_children fuel X h this cs \<noteq> Some (Inl InvariantFailure)"
proof (induction fuel X h a and fuel X h this cs rule: clone_clone_children.induct)
  case (1 X h a)
  then show ?case by simp
next
  case (2 fuel X h a)
  show ?case
  proof (cases "a < length h")
    case True
    let ?h0 = "h @ [\<lparr>parent = None, children = [], payload = payload (h ! a)\<rparr>]"
    have al: "(?h0, length h) = alloc h (payload (h ! a))" by (simp add: alloc_def)
    from "2.IH"[OF True refl al]
    have "clone_children fuel X ?h0 (length h) (children (h ! a)) \<noteq> Some (Inl InvariantFailure)" .
    then show ?thesis
      using True copy_members_no_abort[of X "payload (h ! a)"]
      by (auto simp: alloc_def split: option.splits sum.splits)
  next
    case False
    then show ?thesis by simp
  qed
next
  case (3 fuel X h this)
  then show ?case by simp
next
  case (4 fuel X h this c cs)
  show ?case
  proof (cases "clone fuel X h c")
    case None
    then show ?thesis by simp
  next
    case (Some r)
    show ?thesis
    proof (cases r)
      case (Inl e)
      with Some "4.IH"(1) show ?thesis by auto
    next
      case (Inr hc)
      obtain h2 c' where hc: "hc = (h2, c')" by (cases hc)
      show ?thesis
      proof (cases "addChildToInternalVector h2 this (Some c') :: 'x error + _")
        case (Inl e)
        with Some Inr hc addChildToInternalVector_no_abort[of h2 this "Some c'"]
        show ?thesis by auto
      next
        case i: (Inr h3)
        from "4.IH"(2)[OF Some Inr hc[symmetric] i] Some Inr hc i show ?thesis by simp
      qed
    qed
  qed
qed

lemma clone_leaf:
  assumes "a < length h" "children (h ! a) = []"
  shows "clone (Suc fuel) X h a =
           Some (case copy_members X (payload (h ! a)) of
                   Inl e \<Rightarrow> Inl e
                 | Inr k \<Rightarrow> Inr (alloc h k))"
  using assms by (simp add: alloc_def split: sum.splits)


subsection \<open>Trees in the store\<close>

lemma is_tree_root: "is_tree h p a t \<Longrightarrow> a < length h \<and> parent (h ! a) = p"
  by (cases t) simp

lemma are_trees_iff:
  "are_trees h p cs ts \<longleftrightarrow> length cs = length ts \<and> (\<forall>i < length cs. is_tree h p (cs ! i) (ts ! i))"
proof (induction cs arbitrary: ts)
  case Nil
  then show ?case by (cases ts) auto
next
  case (Cons c cs)
  then show ?case by (cases ts) (auto simp: nth_Cons All_less_Suc2)
qed

lemma are_trees_length: "are_trees h p cs ts \<Longrightarrow> length cs = length ts"
  by (simp add: are_trees_iff)

lemma are_trees_nth:
  "are_trees h p cs ts \<Longrightarrow> i < length cs \<Longrightarrow> is_tree h p (cs ! i) (ts ! i)"
  by (simp add: are_trees_iff)

lemma are_trees_mem:
  "are_trees h p cs ts \<Longrightarrow> c \<in> set cs \<Longrightarrow> \<exists>t \<in> set ts. is_tree h p c t"
  by (metis are_trees_iff in_set_conv_nth nth_mem)

lemma subtree_trans: "y \<in> subtree h c \<Longrightarrow> c \<in> subtree h a \<Longrightarrow> y \<in> subtree h a"
  by (induction rule: subtree.induct) (auto intro: subtree_child)

text \<open>every cell below a well-formed tree is in the store and roots a well-formed tree\<close>
lemma subtree_is_tree:
  assumes "x \<in> subtree h a" "is_tree h p a t"
  shows "\<exists>tx. is_tree h (parent (h ! x)) x tx"
  using assms
proof (induction rule: subtree.induct)
  case subtree_root
  then show ?case using is_tree_root by blast
next
  case (subtree_child x c)
  then obtain tx where tx: "is_tree h (parent (h ! x)) x tx" by blast
  then obtain k ts where "tx = Node k ts" by (cases tx) 
  with tx have "are_trees h (Some x) (children (h ! x)) ts" by simp
  from are_trees_mem[OF this subtree_child.hyps(3)] obtain tc where tc: "is_tree h (Some x) c tc" by blast
  with is_tree_root[OF tc] show ?case by auto
qed

text \<open>frame: a tree only depends on the cells below its root\<close>
lemma is_tree_frame_gen:
  "is_tree h p a t \<Longrightarrow> length h \<le> length h' \<Longrightarrow>
     (\<forall>y \<in> subtree h a. children (h' ! y) = children (h ! y) \<and> payload (h' ! y) = payload (h ! y) \<and>
                          (parent (h ! y) \<noteq> None \<longrightarrow> parent (h' ! y) = parent (h ! y))) \<Longrightarrow>
   is_tree h' (parent (h' ! a)) a t"
proof (induction t arbitrary: a p)
  case (Node k ts)
  have aa: "a \<in> subtree h a" by (rule subtree_root)
  from Node.prems have a: "a < length h" and k: "payload (h ! a) = k" and d: "distinct (children (h ! a))"
    and ch: "are_trees h (Some a) (children (h ! a)) ts" by auto
  have cha: "children (h' ! a) = children (h ! a)" "payload (h' ! a) = payload (h ! a)" using Node.prems(3) aa by auto
  have "are_trees h' (Some a) (children (h ! a)) ts"
    unfolding are_trees_iff
  proof (intro conjI allI impI)
    show "length (children (h ! a)) = length ts" using ch by (rule are_trees_length)
  next
    fix i assume i: "i < length (children (h ! a))"
    let ?c = "children (h ! a) ! i"
    have ci: "is_tree h (Some a) ?c (ts ! i)" using are_trees_nth[OF ch i] .
    have cin: "?c \<in> set (children (h ! a))" using i by simp
    have csub: "?c \<in> subtree h a" using subtree_child[OF aa a cin] .
    have sub: "\<forall>y \<in> subtree h ?c. y \<in> subtree h a" using subtree_trans[OF _ csub] by blast
    have "ts ! i \<in> set ts" using i are_trees_length[OF ch] by simp
    from Node.IH[OF this ci Node.prems(2)] sub Node.prems(3)
    have "is_tree h' (parent (h' ! ?c)) ?c (ts ! i)" by blast
    moreover have pc: "parent (h ! ?c) = Some a" using is_tree_root[OF ci] by simp
    moreover have "parent (h' ! ?c) = parent (h ! ?c)" using Node.prems(3) csub pc by auto
    ultimately show "is_tree h' (Some a) ?c (ts ! i)" by simp
  qed
  then show ?case using a k d cha Node.prems(2) by simp
qed

lemma is_tree_frame:
  assumes "is_tree h p a t" "length h \<le> length h'" "\<forall>y \<in> subtree h a. h' ! y = h ! y"
  shows "is_tree h' p a t"
proof -
  have "is_tree h' (parent (h' ! a)) a t"
    using is_tree_frame_gen[OF assms(1,2)] assms(3) by simp
  moreover have "h' ! a = h ! a" using assms(3) subtree_root by blast
  ultimately show ?thesis using is_tree_root[OF assms(1)] by simp
qed

lemma subtree_bound: "is_tree h p a t \<Longrightarrow> x \<in> subtree h a \<Longrightarrow> x < length h"
  using subtree_is_tree is_tree_root by blast

lemma is_tree_append: "is_tree h p a t \<Longrightarrow> is_tree (h @ xs) p a t"
  by (rule is_tree_frame) (auto simp: nth_append dest: subtree_bound)

text \<open>the copy laid out by clone is a well-formed tree\<close>

lemma length_layout:
  "length (layout b p (t::('b,'m,'e) ast)) = nodes t"
  "length (layouts b this (ts::('b,'m,'e) ast list)) = sum_list (map nodes ts)"
  by (induction b p t and b this ts rule: layout_layouts.induct) simp_all


lemma nodes_pos: "0 < nodes t"
  by (cases t) simp

lemma roots_gt: "c \<in> set (roots b ts) \<Longrightarrow> b \<le> c \<and> c < b + sum_list (map nodes ts)"
proof (induction ts arbitrary: b)
  case (Cons t ts)
  then show ?case using nodes_pos[of t] by fastforce
qed simp

lemma distinct_roots: "distinct (roots b ts)"
proof (induction ts arbitrary: b)
  case (Cons t ts)
  then show ?case using roots_gt[of b "(b + nodes t)" ts] nodes_pos[of t] by auto
qed simp

lemma is_tree_layout:
  "is_tree (H @ layout (length H) p t @ R) p (length H) t"
proof (induction t arbitrary: H p R)
  case (Node k ts)
  let ?cell = "\<lparr>parent = p, children = roots (Suc (length H)) ts, payload = k\<rparr>"
  have ch: "are_trees (H1 @ layouts (length H1) this us @ R1) (Some this) (roots (length H1) us) us"
    if "set us \<subseteq> set ts" for H1 this R1 us
    using that
  proof (induction us arbitrary: H1)
    case Nil
    then show ?case by simp
  next
    case (Cons u us)
    have 1: "is_tree (H1 @ layout (length H1) (Some this) u @ (layouts (length H1 + nodes u) this us @ R1))
               (Some this) (length H1) u"
      using Cons.prems by (intro Node.IH) simp
    have 2: "are_trees ((H1 @ layout (length H1) (Some this) u) @
                 layouts (length (H1 @ layout (length H1) (Some this) u)) this us @ R1)
               (Some this) (roots (length (H1 @ layout (length H1) (Some this) u)) us) us"
      using Cons.prems by (intro Cons.IH) simp
    show ?case using 1 2 by (simp add: length_layout)
  qed
  have "are_trees ((H @ [?cell]) @ layouts (length (H @ [?cell])) (length H) ts @ R) (Some (length H))
          (roots (length (H @ [?cell])) ts) ts"
    by (rule ch) simp
  then show ?case by (simp add: distinct_roots)
qed

subsection \<open>What clone computes\<close>

lemma is_tree_take:
  "is_tree (take n H) p a t \<Longrightarrow> is_tree H p a t"
  "are_trees (take n H) p cs ts \<Longrightarrow> are_trees H p cs ts"
  by (induction "take n H" p a t and "take n H" p cs ts rule: is_tree_are_trees.induct) auto

lemma layout_set_parent:
  "(H @ layout b p t)[length H := ((H @ layout b p t) ! length H)\<lparr>parent := q\<rparr>] = H @ layout b q t"
  by (cases t) (simp add: list_update_append)

lemma addChild_layout:
  assumes "this < length H"
  shows "addChildToInternalVector (H @ layout (length H) None t) this (Some (length H)) =
         Inr ((H @ layout (length H) (Some this) t)
                [this := (H ! this)\<lparr>children := children (H ! this) @ [length H]\<rparr>])"
proof -
  have n: "0 < nodes t" by (cases t) simp
  have "(H @ layout (length H) (Some this) t) ! this = H ! this"
    using assms by (simp add: nth_append)
  then show ?thesis
    using assms n by (simp add: addChildToInternalVector_def layout_set_parent length_layout Let_def)
qed

lemma clone_children_spec:
  assumes IH: "\<And>t fuel H p a. t \<in> set ts \<Longrightarrow> is_tree H p a t \<Longrightarrow> depth t \<le> fuel \<Longrightarrow>
            clone fuel X H a = Some (case copy_ast X t of Inl e \<Rightarrow> Inl e
                                     | Inr t' \<Rightarrow> Inr (H @ layout (length H) None t', length H))"
  shows "are_trees (take n H) q cs ts \<Longrightarrow> n \<le> this \<Longrightarrow> this < length H \<Longrightarrow>
         \<forall>t \<in> set ts. depth t \<le> fuel \<Longrightarrow>
         clone_children fuel X H this cs =
           Some (case copy_asts X ts of Inl e \<Rightarrow> Inl e
                 | Inr ts' \<Rightarrow> Inr ((H @ layouts (length H) this ts')
                     [this := (H ! this)\<lparr>children := children (H ! this) @ roots (length H) ts'\<rparr>]))"
  using IH
proof (induction ts arbitrary: cs H)
  case Nil
  then show ?case by (cases cs) simp_all
next
  case (Cons t ts)
  then obtain c cs' where cs: "cs = c # cs'" by (cases cs) auto
  from Cons.prems cs have tc: "is_tree (take n H) q c t" and tcs: "are_trees (take n H) q cs' ts" by auto
  have c1: "clone fuel X H c = Some (case copy_ast X t of Inl e \<Rightarrow> Inl e
                                     | Inr t' \<Rightarrow> Inr (H @ layout (length H) None t', length H))"
    using Cons.prems(5)[OF _ is_tree_take(1)[OF tc]] Cons.prems(4) by simp
  show ?case
  proof (cases "copy_ast X t")
    case (Inl e)
    then show ?thesis using c1 cs by simp
  next
    case (Inr t')
    let ?H' = "(H @ layout (length H) (Some this) t')
                [this := (H ! this)\<lparr>children := children (H ! this) @ [length H]\<rparr>]"
    have tk: "take n ?H' = take n H" using Cons.prems(2,3) by (simp add: take_update_cancel)
    have len: "length ?H' = length H + nodes t'" by (simp add: length_layout)
    have this': "this < length ?H'" using Cons.prems(3) len by simp
    have thisc: "?H' ! this = (H ! this)\<lparr>children := children (H ! this) @ [length H]\<rparr>"
      using Cons.prems(3) by simp
    have r: "clone_children fuel X ?H' this cs' =
           Some (case copy_asts X ts of Inl e \<Rightarrow> Inl e
                 | Inr ts' \<Rightarrow> Inr ((?H' @ layouts (length ?H') this ts')
                     [this := (?H' ! this)\<lparr>children := children (?H' ! this) @ roots (length ?H') ts'\<rparr>]))"
      apply (rule Cons.IH)
      using tcs tk apply simp
      using Cons.prems apply simp
      using this' apply simp
      using Cons.prems apply simp
      using Cons.prems(5) apply simp
      done
    show ?thesis
      using c1 cs Inr r Cons.prems(3)
      by (simp add: addChild_layout length_layout list_update_append nth_append split: sum.splits)
  qed
qed

lemma depth_le_depths: "t \<in> set ts \<Longrightarrow> depth t \<le> depths ts"
  by (induction ts) auto

lemma clone_spec:
  "is_tree H p a t \<Longrightarrow> depth t \<le> fuel \<Longrightarrow>
   clone fuel X H a = Some (case copy_ast X t of Inl e \<Rightarrow> Inl e
                            | Inr t' \<Rightarrow> Inr (H @ layout (length H) None t', length H))"
proof (induction t arbitrary: fuel H p a)
  case (Node k ts)
  from Node.prems obtain f where f: "fuel = Suc f" and d: "depths ts \<le> f" by (cases fuel) auto
  let ?H0 = "H @ [\<lparr>parent = None, children = [], payload = k\<rparr>]"
  from Node.prems have a: "a < length H" "payload (H ! a) = k"
    and ch: "are_trees H (Some a) (children (H ! a)) ts" by auto
  have "are_trees (take (length H) ?H0) (Some a) (children (H ! a)) ts" using ch by simp
  then have cc: "clone_children f X ?H0 (length H) (children (H ! a)) =
      Some (case copy_asts X ts of Inl e \<Rightarrow> Inl e
            | Inr ts' \<Rightarrow> Inr ((?H0 @ layouts (length ?H0) (length H) ts')
                [length H := (?H0 ! length H)\<lparr>children := children (?H0 ! length H) @ roots (length ?H0) ts'\<rparr>]))"
    apply (rule clone_children_spec[rotated])
    apply simp
    apply simp
    using d depth_le_depths apply (metis order_trans)
    using Node.IH apply blast
    done
  show ?case
    using f a cc
    by (simp add: alloc_def list_update_append split: sum.splits)
qed

declare clone.simps [simp del] clone_children.simps [simp del]

subsection \<open>The clone and the original\<close>

lemma copy_members_same_kind: "copy_members X k = Inr k' \<Longrightarrow> same_kind k k'"
  by (cases k) (auto simp: copy_members_def split: option.splits sum.splits)

lemma copy_ast_same_shape:
  "copy_ast X (t :: ('b, 'm, 'e) ast) = Inr t' \<Longrightarrow> same_shape t t'"
  "copy_asts X (ts :: ('b, 'm, 'e) ast list) = Inr ts' \<Longrightarrow> same_shapes ts ts'"
  by (induction X t and X ts arbitrary: t' and ts' rule: copy_ast_copy_asts.induct)
     (auto split: sum.splits dest: copy_members_same_kind)

lemma copy_members_buffer:
  "copy_members X k = Inr k' \<Longrightarrow>
   (case k' of MatchExpressionASTNode bson _ \<Rightarrow> [bson] | _ \<Rightarrow> []) =
   (case k of MatchExpressionASTNode bson _ \<Rightarrow> [bson] | _ \<Rightarrow> [])"
  by (cases k) (auto simp: copy_members_def split: option.splits sum.splits)

lemma copy_ast_buffers:
  "copy_ast X (t :: ('b, 'm, 'e) ast) = Inr t' \<Longrightarrow> buffers t' = buffers t"
  "copy_asts X (ts :: ('b, 'm, 'e) ast list) = Inr ts' \<Longrightarrow> buffers_list ts' = buffers_list ts"
  by (induction X t and X ts arbitrary: t' and ts' rule: copy_ast_copy_asts.induct)
     (auto split: sum.splits dest: copy_members_buffer)

lemma copy_members_match_objects:
  "copy_members X k = Inr k' \<Longrightarrow>
   (case k' of MatchExpressionASTNode _ (Some m) \<Rightarrow> [m] | _ \<Rightarrow> []) =
   map (shallowClone X) (case k of MatchExpressionASTNode _ (Some m) \<Rightarrow> [m] | _ \<Rightarrow> [])"
  by (cases k) (auto simp: copy_members_def split: option.splits sum.splits)

lemma copy_ast_match_objects:
  "copy_ast X (t :: ('b, 'm, 'e) ast) = Inr t' \<Longrightarrow>
   match_objects t' = map (shallowClone X) (match_objects t)"
  "copy_asts X (ts :: ('b, 'm, 'e) ast list) = Inr ts' \<Longrightarrow>
   match_objects_list ts' = map (shallowClone X) (match_objects_list ts)"
  by (induction X t and X ts arbitrary: t' and ts' rule: copy_ast_copy_asts.induct)
     (auto split: sum.splits dest: copy_members_match_objects)

lemma copy_members_expr_objects:
  "copy_members X k = Inr k' \<Longrightarrow>
   map Inr (case k' of ExpressionASTNode (Some e) \<Rightarrow> [e] | _ \<Rightarrow> []) =
   map (reparsed X) (case k of ExpressionASTNode (Some e) \<Rightarrow> [e] | _ \<Rightarrow> [])"
  by (cases k) (auto simp: copy_members_def reparsed_def split: option.splits sum.splits)

lemma copy_ast_expr_objects:
  "copy_ast X (t :: ('b, 'm, 'e) ast) = Inr t' \<Longrightarrow>
   map Inr (expr_objects t') = map (reparsed X) (expr_objects t)"
  "copy_asts X (ts :: ('b, 'm, 'e) ast list) = Inr ts' \<Longrightarrow>
   map Inr (expr_objects_list ts') = map (reparsed X) (expr_objects_list ts)"
  by (induction X t and X ts arbitrary: t' and ts' rule: copy_ast_copy_asts.induct)
     (auto split: sum.splits dest: copy_members_expr_objects)

lemma new_objects:
  fixes X :: "('m, 'e, 'c, 's, 'v, 'x) externals"
  assumes c: "returns_new_objects X Lm Le"
    and m: "ms' = map (shallowClone X) ms"
    and e: "map Inr es' = map (reparsed X) es"
  shows "set ms' \<inter> Lm = {}" and "set es' \<inter> Le = {}"
    and "map (getExpressionContext X) es' = map (getExpressionContext X) es"
proof -
  from c m show "set ms' \<inter> Lm = {}" by (auto simp: returns_new_objects_def)
  from e have len: "length es' = length es" by (metis length_map)
  have nth: "reparsed X (es ! i) = Inr (es' ! i)" if "i < length es" for i
  proof -
    from that len have "map Inr es' ! i = (Inr (es' ! i) :: 'x + 'e)" by simp
    moreover from that have "map (reparsed X) es ! i = reparsed X (es ! i)" by simp
    ultimately show ?thesis using e by simp
  qed
  have each: "es' ! i \<notin> Le \<and> getExpressionContext X (es' ! i) = getExpressionContext X (es ! i)"
    if "i < length es" for i
    using nth[OF that] c unfolding returns_new_objects_def reparsed_def by blast
  show "set es' \<inter> Le = {}"
  proof (rule ccontr)
    assume "set es' \<inter> Le \<noteq> {}"
    then obtain x where "x \<in> set es'" "x \<in> Le" by blast
    then obtain i where "i < length es'" "es' ! i = x" by (auto simp: in_set_conv_nth)
    with each[of i] len \<open>x \<in> Le\<close> show False by simp
  qed
  show "map (getExpressionContext X) es' = map (getExpressionContext X) es"
    using len each by (simp add: list_eq_iff_nth_eq)
qed

lemma copy_ast_succeeds:
  "list_all (\<lambda>k. \<not> isl (copy_members X k)) (kinds (t :: ('b, 'm, 'e) ast)) \<Longrightarrow>
   \<exists>t'. copy_ast X t = Inr t'"
  "list_all (\<lambda>k. \<not> isl (copy_members X k)) (kinds_list (ts :: ('b, 'm, 'e) ast list)) \<Longrightarrow>
   \<exists>ts'. copy_asts X ts = Inr ts'"
proof (induction X t and X ts rule: copy_ast_copy_asts.induct)
  case (1 X k ts)
  then obtain ts' where "copy_asts X ts = Inr ts'" by auto
  moreover from "1.prems" obtain k' where "copy_members X k = Inr k'"
    by (cases "copy_members X k") auto
  ultimately show ?case by simp
next
  case (2 X)
  then show ?case by simp
next
  case (3 X t ts)
  then obtain t' where t': "copy_ast X t = Inr t'" by auto
  with 3 obtain ts' where "copy_asts X ts = Inr ts'" by auto
  with t' show ?case by simp
qed

lemma same_shapes_nodes:
  "same_shape (t :: ('b, 'm, 'e) ast) t' \<Longrightarrow> nodes t = nodes t'"
  "same_shapes (ts :: ('b, 'm, 'e) ast list) ts' \<Longrightarrow> sum_list (map nodes ts) = sum_list (map nodes ts')"
  by (induction t t' and ts ts' rule: same_shape_same_shapes.induct) auto

text \<open>the children of a laid out cell are laid out cells\<close>
lemma layout_children_bound:
  "i < nodes (t :: ('b, 'm, 'e) ast) \<Longrightarrow> c \<in> set (children (layout b p t ! i)) \<Longrightarrow>
     b < c \<and> c < b + nodes t"
  "i < sum_list (map nodes (ts :: ('b, 'm, 'e) ast list)) \<Longrightarrow>
   c \<in> set (children (layouts b this ts ! i)) \<Longrightarrow>
     b \<le> c \<and> c < b + sum_list (map nodes ts)"
proof (induction b p t and b this ts arbitrary: i and i rule: layout_layouts.induct)
  case (1 b p k ts)
  show ?case
  proof (cases i)
    case 0
    with "1.prems" roots_gt[of c "Suc b" ts] show ?thesis by auto
  next
    case (Suc j)
    with "1.prems" "1.IH"[of j] show ?thesis by (auto simp: length_layout)
  qed
next
  case (2 b this)
  then show ?case by simp
next
  case (3 b this t ts)
  show ?case
  proof (cases "i < nodes t")
    case True
    with "3.prems" "3.IH"(1)[of i] show ?thesis by (auto simp: nth_append length_layout)
  next
    case False
    with "3.prems" have c: "c \<in> set (children (layouts (b + nodes t) this ts ! (i - nodes t)))"
      by (simp add: nth_append length_layout)
    from False "3.prems" have "i - nodes t < sum_list (map nodes ts)" by simp
    from "3.IH"(2)[OF this c] show ?thesis by simp
  qed
qed

lemma subtree_layout_bound:
  assumes "x \<in> subtree (H @ layout (length H) p t) (length H)"
  shows "length H \<le> x \<and> x < length H + nodes t"
  using assms
proof (induction rule: subtree.induct)
  case subtree_root
  then show ?case using nodes_pos[of t] by simp
next
  case (subtree_child x c)
  then have c: "c \<in> set (children (layout (length H) p t ! (x - length H)))"
    by (simp add: nth_append)
  have "x - length H < nodes t" using subtree_child.IH by arith
  from layout_children_bound(1)[OF this c] show ?case by simp
qed

lemma subtree_agree:
  assumes "is_tree h p a t" "\<forall>y<length h. h' ! y = h ! y" "length h \<le> length h'"
    and "x \<in> subtree h' a"
  shows "x \<in> subtree h a"
  using assms(4)
proof (induction rule: subtree.induct)
  case subtree_root
  then show ?case by (rule subtree.subtree_root)
next
  case (subtree_child x c)
  have "x < length h" using subtree_bound[OF assms(1) subtree_child.IH] .
  with subtree_child assms(2) show ?case by (auto intro: subtree.subtree_child)
qed

lemma clone_result:
  assumes "is_tree h p a t" "depth t \<le> fuel" "clone fuel X h a = Some (Inr (h', a'))"
  shows "\<exists>t'. copy_ast X t = Inr t' \<and> h' = h @ layout (length h) None t' \<and> a' = length h"
  using clone_spec[OF assms(1,2), of X] assms(3) by (auto split: sum.splits)

lemma clone_total:
  assumes "is_tree h p a t" "depth t \<le> fuel"
  shows "\<exists>r. clone fuel X h a = Some r"
  using clone_spec[OF assms, of X] by simp


subsection \<open>The example trees\<close>

lemma example_is_tree: "is_tree example_heap None 2 example_tree"
  by (simp add: example_heap_def example_tree_def)

lemma example_depth: "depth example_tree \<le> Suc (Suc 0)"
  by (simp add: example_tree_def)

lemma example_clone:
  "clone (Suc (Suc 0)) toy example_heap 2 =
     Some (Inr (example_heap @
       [\<lparr>parent = None, children = [4, 5], payload = ProjectionPathASTNode [''a'', ''b'']\<rparr>,
        \<lparr>parent = Some 3, children = [], payload = BooleanConstantASTNode True\<rparr>,
        \<lparr>parent = Some 3, children = [], payload = ProjectionSliceASTNode (Some 2) 5\<rparr>], 3))"
  by (simp add: example_heap_def clone.simps clone_children.simps alloc_def
        addChildToInternalVector_def copy_members_def Let_def)

lemma positional_is_tree: "is_tree positional_heap None 1 positional_tree"
  by (simp add: positional_heap_def positional_tree_def)

lemma positional_depth: "depth positional_tree \<le> Suc (Suc 0)"
  by (simp add: positional_tree_def)

lemma positional_clone:
  "clone (Suc (Suc 0)) toy positional_heap 1 =
     Some (Inr (positional_heap @
       [\<lparr>parent = None, children = [3], payload = ProjectionPositionalASTNode\<rparr>,
        \<lparr>parent = Some 2, children = [],
           payload = MatchExpressionASTNode 7 (Some ''{a: {$gt: 1}}'')\<rparr>], 2))"
  by (simp add: positional_heap_def clone.simps clone_children.simps alloc_def
        addChildToInternalVector_def copy_members_def toy_def Let_def)

lemma example_clone_interior:
  "clone (Suc 0) toy example_heap 1 =
     Some (Inr (example_heap @
       [\<lparr>parent = None, children = [], payload = ProjectionSliceASTNode (Some 2) 5\<rparr>], 3))"
  by (simp add: example_heap_def clone.simps clone_children.simps alloc_def
        copy_members_def Let_def)

lemma objects_is_tree: "is_tree objects_heap None 3 objects_tree"
  by (simp add: objects_heap_def objects_tree_def)

lemma objects_depth: "depth objects_tree \<le> Suc (Suc (Suc 0))"
  by (simp add: objects_tree_def)

lemma objects_clone:
  "clone (Suc (Suc (Suc 0))) toy_objects objects_heap 3 = Some (Inr (objects_clone_heap, 4))"
  by (simp add: objects_clone_heap_def objects_heap_def clone.simps clone_children.simps
        alloc_def addChildToInternalVector_def copy_members_def toy_objects_def Let_def)

lemma toy_objects_new: "returns_new_objects toy_objects {..<100} {e. fst e < 100}"
  by (simp add: returns_new_objects_def toy_objects_def)

subsection \<open>Every store a client can build is consistent\<close>

lemma set_parents_Some:
  "\<forall>c \<in> set cs. c < length h \<Longrightarrow>
   \<exists>h'. set_parents h this (map Some cs) = (Inr h' :: 'x error + _) \<and> length h' = length h \<and>
     (\<forall>x<length h. h' ! x = (if x \<in> set cs then (h ! x)\<lparr>parent := Some this\<rparr> else h ! x))"
proof (induction cs arbitrary: h)
  case Nil
  then show ?case by simp
next
  case (Cons c cs)
  let ?h = "h[c := (h ! c)\<lparr>parent := Some this\<rparr>]"
  have "\<forall>c \<in> set cs. c < length ?h" using Cons.prems by simp
  from Cons.IH[OF this] obtain h' where h': "set_parents ?h this (map Some cs) = (Inr h' :: 'x error + _)"
    "length h' = length ?h"
    "\<forall>x<length ?h. h' ! x = (if x \<in> set cs then (?h ! x)\<lparr>parent := Some this\<rparr> else ?h ! x)"
    by blast
  have "\<forall>x<length h. h' ! x = (if x \<in> set (c # cs) then (h ! x)\<lparr>parent := Some this\<rparr> else h ! x)"
  proof (intro allI impI)
    fix x assume x: "x < length h"
    show "h' ! x = (if x \<in> set (c # cs) then (h ! x)\<lparr>parent := Some this\<rparr> else h ! x)"
      using h'(3) x by (cases "x = c") (simp_all add: nth_list_update)
  qed
  with h'(1,2) Cons.prems show ?case by simp
qed

lemma alloc_adoption: "adoption h [] k (fst (alloc h k)) \<and> snd (alloc h k) = length h"
  by (simp add: adoption_def alloc_def nth_append)

lemma new_ProjectionPathASTNode_adoption:
  assumes "\<forall>c \<in> set cs. c < length h"
    and "new_ProjectionPathASTNode h (map Some cs) fieldNames = (Inr (h', a) :: 'x error + _)"
  shows "adoption h cs (ProjectionPathASTNode fieldNames) h' \<and> a = length h \<and>
         length cs = length fieldNames"
proof -
  let ?h0 = "h @ [\<lparr>parent = None, children = [], payload = ProjectionPathASTNode fieldNames\<rparr>]"
  have c: "\<forall>c \<in> set cs. c < length ?h0" using assms(1) by auto
  from set_parents_Some[OF c, of "length h"] obtain h1 where
    h1: "set_parents ?h0 (length h) (map Some cs) = (Inr h1 :: 'x error + _)" "length h1 = length ?h0"
    "\<forall>x<length ?h0. h1 ! x = (if x \<in> set cs then (?h0 ! x)\<lparr>parent := Some (length h)\<rparr> else ?h0 ! x)"
    by blast
  have nin: "length h \<notin> set cs" using assms(1) by auto
  from assms(2) h1(1,2) have r: "h' = h1[length h := (h1 ! length h)\<lparr>children := cs\<rparr>]" "a = length h"
    "length cs = length fieldNames"
    by (auto simp: new_ProjectionPathASTNode_def alloc_def ASTNode_ctor_def comp_def
             split: if_splits)
  have "h1 ! length h = \<lparr>parent = None, children = [], payload = ProjectionPathASTNode fieldNames\<rparr>"
    using h1(3) nin by simp
  moreover have "\<forall>x<length h. h1 ! x = (if x \<in> set cs then (h ! x)\<lparr>parent := Some (length h)\<rparr> else h ! x)"
    using h1(3) by (simp add: nth_append)
  ultimately show ?thesis using r h1(2) by (simp add: adoption_def)
qed

lemma new_Positional_adoption:
  assumes "c < length h"
    and "new_ProjectionPositionalASTNode h (Some c) = (Inr (h', a) :: 'x error + _)"
  shows "adoption h [c] ProjectionPositionalASTNode h' \<and> a = length h"
  using assms
  by (auto simp: new_ProjectionPositionalASTNode_def alloc_def addChildToInternalVector_def
        adoption_def Let_def nth_append nth_list_update list_update_append split: if_splits)

lemma new_ElemMatch_adoption:
  assumes "c < length h"
    and "new_ProjectionElemMatchASTNode h (Some c) = (Inr (h', a) :: 'x error + _)"
  shows "adoption h [c] ProjectionElemMatchASTNode h' \<and> a = length h"
  using assms
  by (auto simp: new_ProjectionElemMatchASTNode_def alloc_def addChildToInternalVector_def
        adoption_def Let_def nth_append nth_list_update list_update_append split: if_splits)

lemma are_trees_exists:
  "\<forall>c \<in> set cs. \<exists>t. is_tree h p c t \<Longrightarrow> \<exists>ts. are_trees h p cs ts"
proof (induction cs)
  case Nil
  have "are_trees h p [] []" by simp
  then show ?case by blast
next
  case (Cons c cs)
  then obtain t ts where "is_tree h p c t" "are_trees h p cs ts" by auto
  then have "are_trees h p (c # cs) (t # ts)" by simp
  then show ?case by blast
qed

lemma clone_mono:
  fixes X :: "('m, 'e, 'c, 's, 'v, 'x) externals"
  shows "clone f X h a = Some r \<Longrightarrow> f \<le> f' \<Longrightarrow> clone f' X h a = Some r"
  and "clone_children f X h this cs = Some r' \<Longrightarrow> f \<le> f' \<Longrightarrow> clone_children f' X h this cs = Some r'"
proof (induction f X h a and f X h this cs arbitrary: r f' and r' f' rule: clone_clone_children.induct)
  case (1 X h a)
  then show ?case by (simp add: clone.simps)
next
  case (2 fuel X h a)
  from "2.prems" obtain g where g: "f' = Suc g" "fuel \<le> g" by (cases f') auto
  show ?case
  proof (cases "a < length h")
    case True
    let ?h0 = "h @ [\<lparr>parent = None, children = [], payload = payload (h ! a)\<rparr>]"
    have al: "(?h0, length h) = alloc h (payload (h ! a))" by (simp add: alloc_def)
    from "2.prems"(1) True obtain rc where rc: "clone_children fuel X ?h0 (length h) (children (h ! a)) = Some rc"
      by (auto simp: clone.simps alloc_def split: option.splits)
    from "2.IH"[OF True refl al rc g(2)]
    have "clone_children g X ?h0 (length h) (children (h ! a)) = Some rc" .
    with rc "2.prems"(1) True g show ?thesis by (simp add: clone.simps alloc_def)
  next
    case False
    with "2.prems" g show ?thesis by (simp add: clone.simps)
  qed
next
  case (3 fuel X h this)
  then show ?case by (simp add: clone_children.simps)
next
  case (4 fuel X h this c cs)
  from "4.prems"(1) obtain rc where rc: "clone fuel X h c = Some rc"
    by (auto simp: clone_children.simps split: option.splits)
  from "4.IH"(1)[OF rc "4.prems"(2)] have rc': "clone f' X h c = Some rc" .
  show ?case
  proof (cases rc)
    case (Inl e)
    with rc rc' "4.prems"(1) show ?thesis by (simp add: clone_children.simps)
  next
    case (Inr hc)
    obtain h2 c' where hc: "hc = (h2, c')" by (cases hc)
    show ?thesis
    proof (cases "addChildToInternalVector h2 this (Some c') :: 'x error + _")
      case (Inl e)
      with rc rc' Inr hc "4.prems"(1) show ?thesis by (auto simp: clone_children.simps)
    next
      case i: (Inr h3)
      from "4.prems"(1) rc Inr hc i have "clone_children fuel X h3 this cs = Some r'"
        by (simp add: clone_children.simps)
      from "4.IH"(2)[OF rc Inr hc[symmetric] i this "4.prems"(2)]
      show ?thesis using rc' Inr hc i by (simp add: clone_children.simps)
    qed
  qed
qed

lemma clone_result':
  assumes "is_tree h p a t" "clone fuel X h a = Some (Inr (h', a'))"
  shows "\<exists>t'. copy_ast X t = Inr t' \<and> h' = h @ layout (length h) None t' \<and> a' = length h"
proof -
  have "clone (max fuel (depth t)) X h a = Some (Inr (h', a'))"
    using clone_mono(1)[OF assms(2)] by simp
  then show ?thesis
    using clone_result[OF assms(1), of "max fuel (depth t)" X h' a'] by simp
qed

text \<open>every laid out cell is reached from the root\<close>

lemma layout_subtree:
  "length H \<le> x \<Longrightarrow> x < length H + nodes t \<Longrightarrow>
   x \<in> subtree (H @ layout (length H) p t @ R) (length H)"
proof (induction t arbitrary: H p R x)
  case (Node k ts)
  let ?cell = "\<lparr>parent = p, children = roots (Suc (length H)) ts, payload = k\<rparr>"
  let ?h = "H @ layout (length H) p (Node k ts) @ R"
  have inner: "\<exists>c \<in> set (roots (length H1) us).
                 x \<in> subtree (H1 @ layouts (length H1) this us @ R1) c"
    if "set us \<subseteq> set ts" "length H1 \<le> x" "x < length H1 + sum_list (map nodes us)"
    for H1 this R1 us
    using that
  proof (induction us arbitrary: H1)
    case Nil
    then show ?case by simp
  next
    case (Cons u us)
    show ?case
    proof (cases "x < length H1 + nodes u")
      case True
      have "x \<in> subtree (H1 @ layout (length H1) (Some this) u @ (layouts (length H1 + nodes u) this us @ R1))
                 (length H1)"
        using Cons.prems True by (intro Node.IH) auto
      then show ?thesis by simp
    next
      case False
      let ?H2 = "H1 @ layout (length H1) (Some this) u"
      have "\<exists>c \<in> set (roots (length ?H2) us). x \<in> subtree (?H2 @ layouts (length ?H2) this us @ R1) c"
        using Cons.prems False by (intro Cons.IH) (auto simp: length_layout)
      then show ?thesis by (auto simp: length_layout)
    qed
  qed
  show ?case
  proof (cases "x = length H")
    case True
    then show ?thesis by (simp add: subtree_root)
  next
    case False
    with Node.prems have "length (H @ [?cell]) \<le> x" "x < length (H @ [?cell]) + sum_list (map nodes ts)"
      by auto
    from inner[OF subset_refl this, of "length H" R]
    obtain c where c: "c \<in> set (roots (Suc (length H)) ts)" "x \<in> subtree ?h c" by auto
    have "?h ! length H = ?cell" by simp
    with c(1) have "c \<in> set (children (?h ! length H))" by simp
    then have "c \<in> subtree ?h (length H)"
      by (intro subtree_child[OF subtree_root]) auto
    from subtree_trans[OF c(2) this] show ?thesis .
  qed
qed

lemma subtree_parent:
  assumes "is_tree h p a t" "x \<in> subtree h a" "x \<noteq> a"
  shows "\<exists>q. q < length h \<and> x \<in> set (children (h ! q)) \<and> parent (h ! x) = Some q"
  using assms(2,3)
proof (cases rule: subtree.cases)
  case subtree_root
  with assms(3) show ?thesis by simp
next
  case (subtree_child q)
  from subtree_is_tree[OF subtree_child(1) assms(1)] obtain tq where tq: "is_tree h (parent (h ! q)) q tq" by blast
  obtain k ts where "tq = Node k ts" by (cases tq)
  with tq have "are_trees h (Some q) (children (h ! q)) ts" by simp
  from are_trees_mem[OF this subtree_child(3)] obtain tx where "is_tree h (Some q) x tx" by blast
  from is_tree_root[OF this] subtree_child show ?thesis by blast
qed

lemma asts_ok_iff: "asts_ok ts \<longleftrightarrow> (\<forall>t \<in> set ts. ast_ok t)"
  by (induction ts) auto

lemma same_shapes_length: "same_shapes ts ts' \<Longrightarrow> length ts = length ts'"
  by (induction ts arbitrary: ts') (case_tac ts'; simp)+

lemma same_shape_is_match: "same_shape t t' \<Longrightarrow> is_match t = is_match t'"
  by (cases t; cases t'; case_tac x1; case_tac x1a) simp_all

lemma same_kind_ok:
  assumes "same_kind k k'" "same_shapes ts ts'" "kind_ok k ts"
  shows "kind_ok k' ts'"
proof -
  have l: "length ts = length ts'" using assms(2) by (rule same_shapes_length)
  have m: "is_match (hd ts) = is_match (hd ts')" if "length ts = 1"
  proof -
    from that l obtain t t' where "ts = [t]" "ts' = [t']"
      by (cases ts; cases ts') auto
    with assms(2) show ?thesis by (simp add: same_shape_is_match)
  qed
  show ?thesis using assms(1,3) l m by (cases k; cases k') auto
qed

lemma same_shape_ok:
  "same_shape (t :: ('b, 'm, 'e) ast) t' \<Longrightarrow> ast_ok t \<Longrightarrow> ast_ok t'"
  "same_shapes (ts :: ('b, 'm, 'e) ast list) ts' \<Longrightarrow> asts_ok ts \<Longrightarrow> asts_ok ts'"
proof (induction t t' and ts ts' rule: same_shape_same_shapes.induct)
  case (1 k ts k' ts')
  then show ?case using same_kind_ok[of k k' ts ts'] by simp
qed simp_all

lemma ast_ok_class_inv:
  assumes "is_tree h p a t" "ast_ok t"
  shows "class_inv h a"
proof -
  obtain k ts where t: "t = Node k ts" by (cases t)
  with assms have a: "a < length h" and k: "payload (h ! a) = k"
    and ch: "are_trees h (Some a) (children (h ! a)) ts" and ok: "kind_ok k ts" by auto
  have len: "length (children (h ! a)) = length ts" using ch by (rule are_trees_length)
  have one: "\<exists>c bson me. children (h ! a) = [c] \<and> c < length h \<and>
                       payload (h ! c) = MatchExpressionASTNode bson me"
    if "length ts = 1" "is_match (hd ts)"
  proof -
    from that len obtain c tc where c: "children (h ! a) = [c]" "ts = [tc]"
      by (cases ts; cases "children (h ! a)") auto
    with ch have tc: "is_tree h (Some a) c tc" by simp
    from that c have "is_match tc" by simp
    then obtain bson me us where "tc = Node (MatchExpressionASTNode bson me) us"
      by (cases tc rule: is_match.cases) auto
    with tc c show ?thesis by auto
  qed
  show ?thesis using ok k len one by (cases k) (auto simp: class_inv_def)
qed

lemma subtree_is_tree_ok:
  assumes "x \<in> subtree h a" "is_tree h p a t" "ast_ok t"
  shows "\<exists>tx. is_tree h (parent (h ! x)) x tx \<and> ast_ok tx"
  using assms
proof (induction rule: subtree.induct)
  case subtree_root
  then show ?case using is_tree_root by blast
next
  case (subtree_child x c)
  then obtain tx where tx: "is_tree h (parent (h ! x)) x tx" "ast_ok tx" by blast
  then obtain k ts where t: "tx = Node k ts" by (cases tx)
  with tx have "are_trees h (Some x) (children (h ! x)) ts" by simp
  from are_trees_mem[OF this subtree_child.hyps(3)] obtain tc
    where tc: "tc \<in> set ts" "is_tree h (Some x) c tc" by blast
  from tx(2) t tc(1) have "ast_ok tc" by (simp add: asts_ok_iff)
  with is_tree_root[OF tc(2)] tc(2) show ?case by auto
qed

lemma clone_Inr_valid: "clone fuel X h a = Some (Inr r) \<Longrightarrow> a < length h"
  by (cases fuel) (auto simp: clone.simps split: if_splits)

lemma consistentD:
  assumes "consistent h" "a < length h"
  shows "distinct (children (h ! a))"
    and "\<And>c. c \<in> set (children (h ! a)) \<Longrightarrow> c < length h \<and> parent (h ! c) = Some a"
    and "\<And>p. parent (h ! a) = Some p \<Longrightarrow> p < length h \<and> a \<in> set (children (h ! p))"
    and "parent (h ! a) = None \<Longrightarrow> \<exists>t. is_tree h None a t"
    and "class_inv h a"
  using assms unfolding consistent_def by blast+

lemma consistentI:
  assumes "\<And>a. a < length h \<Longrightarrow> distinct (children (h ! a))"
    and "\<And>a c. a < length h \<Longrightarrow> c \<in> set (children (h ! a)) \<Longrightarrow> c < length h \<and> parent (h ! c) = Some a"
    and "\<And>a p. a < length h \<Longrightarrow> parent (h ! a) = Some p \<Longrightarrow> p < length h \<and> a \<in> set (children (h ! p))"
    and "\<And>a. a < length h \<Longrightarrow> parent (h ! a) = None \<Longrightarrow> \<exists>t. is_tree h None a t"
    and "\<And>a. a < length h \<Longrightarrow> class_inv h a"
  shows "consistent h"
  unfolding consistent_def using assms by blast

lemma consistent_adoption:
  assumes wf: "consistent h" and ad: "adoption h cs k h'" and d: "distinct cs"
    and roots: "\<forall>c \<in> set cs. c < length h \<and> parent (h ! c) = None"
    and ok: "new_cell_ok h cs k"
  shows "consistent h'"
proof -
  let ?n = "length h"
  from ad have len: "length h' = Suc ?n"
    and new: "h' ! ?n = \<lparr>parent = None, children = cs, payload = k\<rparr>"
    and old: "\<And>x. x < ?n \<Longrightarrow> h' ! x = (if x \<in> set cs then (h ! x)\<lparr>parent := Some ?n\<rparr> else h ! x)"
    by (auto simp: adoption_def)
  have oldc: "children (h' ! x) = children (h ! x)" "payload (h' ! x) = payload (h ! x)"
    if "x < ?n" for x using old[OF that] by auto
  have oldp: "parent (h' ! x) = (if x \<in> set cs then Some ?n else parent (h ! x))"
    if "x < ?n" for x using old[OF that] by auto
  have seen: "is_tree h' (parent (h' ! a)) a t" if t: "is_tree h None a t" for a t
  proof (rule is_tree_frame_gen[OF t])
    show "length h \<le> length h'" using len by simp
    show "\<forall>y\<in>subtree h a. children (h' ! y) = children (h ! y) \<and>
            payload (h' ! y) = payload (h ! y) \<and>
            (parent (h ! y) \<noteq> None \<longrightarrow> parent (h' ! y) = parent (h ! y))"
    proof
      fix y assume "y \<in> subtree h a"
      from subtree_bound[OF t this] have y: "y < ?n" .
      show "children (h' ! y) = children (h ! y) \<and> payload (h' ! y) = payload (h ! y) \<and>
            (parent (h ! y) \<noteq> None \<longrightarrow> parent (h' ! y) = parent (h ! y))"
        using oldc[OF y] oldp[OF y] roots by auto
    qed
  qed
  have class_old: "class_inv h' a" if a: "a < ?n" for a
  proof -
    from consistentD(5)[OF wf a] have c: "class_inv h a" .
    show ?thesis
    proof (cases "payload (h ! a)")
      case ProjectionPositionalASTNode
      with c obtain x bson me where "children (h ! a) = [x]" "x < ?n"
        "payload (h ! x) = MatchExpressionASTNode bson me" by (auto simp: class_inv_def)
      with ProjectionPositionalASTNode oldc[OF a] oldc[of x] len show ?thesis
        by (auto simp: class_inv_def)
    next
      case ProjectionElemMatchASTNode
      with c obtain x bson me where "children (h ! a) = [x]" "x < ?n"
        "payload (h ! x) = MatchExpressionASTNode bson me" by (auto simp: class_inv_def)
      with ProjectionElemMatchASTNode oldc[OF a] oldc[of x] len show ?thesis
        by (auto simp: class_inv_def)
    qed (use c oldc[OF a] in \<open>auto simp: class_inv_def\<close>)
  qed
  have class_new: "class_inv h' ?n"
    using ok new roots oldc len
    by (cases k) (auto simp: class_inv_def new_cell_ok_def)
  show ?thesis
  proof (rule consistentI)
    fix a assume "a < length h'"
    then consider "a < ?n" | "a = ?n" using len by linarith
    then show "distinct (children (h' ! a))"
      using consistentD(1)[OF wf] oldc(1) new d by cases auto
  next
    fix a c assume al: "a < length h'" and c: "c \<in> set (children (h' ! a))"
    from al consider "a < ?n" | "a = ?n" using len by linarith
    then show "c < length h' \<and> parent (h' ! c) = Some a"
    proof cases
      case 1
      from c oldc(1)[OF 1] have "c \<in> set (children (h ! a))" by simp
      from consistentD(2)[OF wf 1 this] have cc: "c < ?n" "parent (h ! c) = Some a" by simp_all
      with roots have "c \<notin> set cs" by auto
      with oldp[OF cc(1)] cc len show ?thesis by simp
    next
      case 2
      with c new have cs: "c \<in> set cs" by simp
      with roots have "c < ?n" by simp
      with oldp[OF this] cs 2 len show ?thesis by simp
    qed
  next
    fix a p assume al: "a < length h'" and p: "parent (h' ! a) = Some p"
    from al consider "a < ?n" | "a = ?n" using len by linarith
    then show "p < length h' \<and> a \<in> set (children (h' ! p))"
    proof cases
      case 1
      show ?thesis
      proof (cases "a \<in> set cs")
        case True
        with oldp[OF 1] p have "p = ?n" by simp
        with True new len show ?thesis by simp
      next
        case False
        with oldp[OF 1] p have "parent (h ! a) = Some p" by simp
        from consistentD(3)[OF wf 1 this] have "p < ?n" "a \<in> set (children (h ! p))" by simp_all
        with oldc[of p] len show ?thesis by simp
      qed
    next
      case 2
      with p new show ?thesis by simp
    qed
  next
    fix a assume al: "a < length h'" and p: "parent (h' ! a) = None"
    from al consider "a < ?n" | "a = ?n" using len by linarith
    then show "\<exists>t. is_tree h' None a t"
    proof cases
      case 1
      with oldp[OF 1] p have "parent (h ! a) = None" by (simp split: if_splits)
      from consistentD(4)[OF wf 1 this] obtain t where "is_tree h None a t" by blast
      from seen[OF this] p show ?thesis by auto
    next
      case 2
      have "\<forall>c \<in> set cs. \<exists>t. is_tree h' (Some ?n) c t"
      proof
        fix c assume c: "c \<in> set cs"
        with roots have cn: "c < ?n" "parent (h ! c) = None" by simp_all
        from consistentD(4)[OF wf cn] obtain t where "is_tree h None c t" by blast
        from seen[OF this] oldp[OF cn(1)] c show "\<exists>t. is_tree h' (Some ?n) c t" by auto
      qed
      from are_trees_exists[OF this] obtain ts where "are_trees h' (Some ?n) cs ts" by blast
      with new len d 2 have "is_tree h' None a (Node k ts)" by simp
      then show ?thesis by blast
    qed
  next
    fix a assume "a < length h'"
    then consider "a < ?n" | "a = ?n" using len by linarith
    then show "class_inv h' a" using class_old class_new by cases auto
  qed
qed

lemma consistent_alloc:
  assumes "consistent h" "new_cell_ok h [] k"
  shows "consistent (fst (alloc h k))"
  using consistent_adoption[OF assms(1) conjunct1[OF alloc_adoption, of h k] _ _ assms(2)] by simp

text \<open>two parentless nodes root disjoint trees\<close>

lemma roots_disjoint:
  assumes r: "is_tree h None r tr" and n: "is_tree h None node tn"
    and x: "x \<in> subtree h r" and y: "x \<in> subtree h node"
  shows "r = node"
  using x y
proof (induction rule: subtree.induct)
  case subtree_root
  show ?case
  proof (rule ccontr)
    assume "r \<noteq> node"
    from subtree_parent[OF n subtree_root this] is_tree_root[OF r] show False by auto
  qed
next
  case (subtree_child x c)
  from subtree_is_tree[OF subtree_child.hyps(1) r] obtain tx where tx: "is_tree h (parent (h ! x)) x tx" by blast
  obtain k ts where "tx = Node k ts" by (cases tx)
  with tx have "are_trees h (Some x) (children (h ! x)) ts" by simp
  from are_trees_mem[OF this subtree_child.hyps(3)] obtain tc where "is_tree h (Some x) c tc" by blast
  from is_tree_root[OF this] have pc: "parent (h ! c) = Some x" by simp
  with is_tree_root[OF n] have "c \<noteq> node" by auto
  from subtree_parent[OF n subtree_child.prems this] pc obtain q
    where "parent (h ! c) = Some q" "c \<in> set (children (h ! q))" "q < length h" by blast
  with pc have qx: "q = x" by simp
  from subtree_child.prems \<open>c \<noteq> node\<close> have "x \<in> subtree h node"
  proof (cases rule: subtree.cases)
    case subtree_root
    with \<open>c \<noteq> node\<close> show ?thesis by simp
  next
    case (subtree_child q')
    from subtree_is_tree[OF subtree_child(1) n] obtain tq where tq: "is_tree h (parent (h ! q')) q' tq" by blast
    obtain k' ts' where "tq = Node k' ts'" by (cases tq)
    with tq have "are_trees h (Some q') (children (h ! q')) ts'" by simp
    from are_trees_mem[OF this subtree_child(3)] obtain tc' where "is_tree h (Some q') c tc'" by blast
    from is_tree_root[OF this] pc have "q' = x" by simp
    with subtree_child(1) show ?thesis by simp
  qed
  from subtree_child.IH[OF this] show ?case .
qed

text \<open>what \<^verbatim>\<open>addChild\<close> writes, field by field; \<open>this\<close> and \<open>node\<close> may be the same cell\<close>

lemma addChild_fields:
  assumes "addChild h this fieldName (Some node) = (Inr h' :: 'x error + _)"
  shows "this < length h \<and> node < length h \<and> length h' = length h \<and>
         (\<exists>fieldNames. payload (h ! this) = ProjectionPathASTNode fieldNames \<and>
            payload (h' ! this) = ProjectionPathASTNode (fieldNames @ [fieldName])) \<and>
         (\<forall>x<length h. parent (h' ! x) = (if x = node then Some this else parent (h ! x))) \<and>
         (\<forall>x<length h. children (h' ! x) =
              (if x = this then children (h ! x) @ [node] else children (h ! x))) \<and>
         (\<forall>x<length h. x \<noteq> this \<longrightarrow> payload (h' ! x) = payload (h ! x))"
proof -
  from assms(1) have thl: "this < length h" by (simp add: addChild_def split: if_splits)
  from assms(1) thl obtain fieldNames where k: "payload (h ! this) = ProjectionPathASTNode fieldNames"
    by (cases "payload (h ! this)") (simp_all add: addChild_def)
  from assms(1) thl k have node: "node < length h"
    by (auto simp: addChild_def addChildToInternalVector_def split: if_splits)
  let ?h1 = "h[node := (h ! node)\<lparr>parent := Some this\<rparr>]"
  let ?h2 = "?h1[this := (?h1 ! this)\<lparr>children := children (?h1 ! this) @ [node]\<rparr>]"
  have a: "addChildToInternalVector h this (Some node) = (Inr ?h2 :: 'x error + _)"
    using thl node by (simp add: addChildToInternalVector_def Let_def)
  have p2: "payload (?h2 ! this) = ProjectionPathASTNode fieldNames"
    using thl node k by (cases "this = node") simp_all
  from assms(1) thl k a p2
  have h': "h' = ?h2[this := (?h2 ! this)\<lparr>payload := ProjectionPathASTNode (fieldNames @ [fieldName])\<rparr>]"
    by (simp add: addChild_def)
  show ?thesis
    using thl node k unfolding h' by (auto simp: nth_list_update)
qed

text \<open>the trees of the store after \<^verbatim>\<open>addChild\<close>, when the adopting node is not below the adopted one\<close>

lemma addChild_tree:
  assumes len: "length h' = length h"
    and par: "\<And>x. x < length h \<Longrightarrow> parent (h' ! x) = (if x = node then Some this else parent (h ! x))"
    and chi: "\<And>x. x < length h \<Longrightarrow> children (h' ! x) =
              (if x = this then children (h ! x) @ [node] else children (h ! x))"
    and pay: "\<And>x. x < length h \<Longrightarrow> x \<noteq> this \<Longrightarrow> payload (h' ! x) = payload (h ! x)"
    and node: "node < length h" "parent (h ! node) = None"
    and tn: "is_tree h None node tn"
    and nin: "this \<notin> subtree h node"
  shows "is_tree h p a t \<Longrightarrow> \<exists>t'. is_tree h' (parent (h' ! a)) a t'"
proof -
  have node_tree: "is_tree h' (Some this) node tn"
  proof -
    have "is_tree h' (parent (h' ! node)) node tn"
    proof (rule is_tree_frame_gen[OF tn])
      show "length h \<le> length h'" using len by simp
      show "\<forall>y\<in>subtree h node. children (h' ! y) = children (h ! y) \<and>
              payload (h' ! y) = payload (h ! y) \<and>
              (parent (h ! y) \<noteq> None \<longrightarrow> parent (h' ! y) = parent (h ! y))"
      proof
        fix y assume y: "y \<in> subtree h node"
        from subtree_bound[OF tn y] have yl: "y < length h" .
        from y nin have "y \<noteq> this" by auto
        with par[OF yl] chi[OF yl] pay[OF yl] node(2)
        show "children (h' ! y) = children (h ! y) \<and> payload (h' ! y) = payload (h ! y) \<and>
              (parent (h ! y) \<noteq> None \<longrightarrow> parent (h' ! y) = parent (h ! y))" by auto
      qed
    qed
    with par[OF node(1)] show ?thesis by simp
  qed
  show "is_tree h p a t \<Longrightarrow> \<exists>t'. is_tree h' (parent (h' ! a)) a t'"
  proof (induction t arbitrary: p a)
    case (Node k' ts)
    from Node.prems have a: "a < length h" and d: "distinct (children (h ! a))"
      and ch: "are_trees h (Some a) (children (h ! a)) ts" by auto
    have cs: "\<exists>t'. is_tree h' (Some a) c t' \<and> c \<noteq> node" if c: "c \<in> set (children (h ! a))" for c
    proof -
      from are_trees_mem[OF ch c] obtain tc where tc: "tc \<in> set ts" "is_tree h (Some a) c tc" by blast
      from is_tree_root[OF tc(2)] node(2) have cn: "c \<noteq> node" "c < length h" "parent (h ! c) = Some a" by auto
      from Node.IH[OF tc] obtain t' where "is_tree h' (parent (h' ! c)) c t'" by blast
      with par[OF cn(2)] cn show ?thesis by auto
    qed
    show ?case
    proof (cases "a = this")
      case False
      from cs have "\<forall>c \<in> set (children (h ! a)). \<exists>t'. is_tree h' (Some a) c t'" by blast
      from are_trees_exists[OF this] obtain ts' where "are_trees h' (Some a) (children (h ! a)) ts'" by blast
      with a d len chi[OF a] False have "is_tree h' (parent (h' ! a)) a (Node (payload (h' ! a)) ts')"
        by simp
      then show ?thesis by blast
    next
      case True
      have "\<forall>c \<in> set (children (h ! a) @ [node]). \<exists>t'. is_tree h' (Some a) c t'"
        using cs node_tree True by auto
      from are_trees_exists[OF this] obtain ts'
        where "are_trees h' (Some a) (children (h ! a) @ [node]) ts'" by blast
      moreover have "distinct (children (h ! a) @ [node])" using d cs by auto
      ultimately have "is_tree h' (parent (h' ! a)) a (Node (payload (h' ! a)) ts')"
        using a len chi[OF a] True by simp
      then show ?thesis by blast
    qed
  qed
qed

lemma consistent_addChild:
  assumes wf: "consistent h"
    and node: "node < length h" "parent (h ! node) = None"
    and ac: "addChild h this fieldName (Some node) = (Inr h' :: 'x error + _)"
  shows "consistent h'"
proof -
  from addChild_fields[OF ac] obtain fieldNames where
    thl: "this < length h" and len: "length h' = length h"
    and k: "payload (h ! this) = ProjectionPathASTNode fieldNames"
    and k': "payload (h' ! this) = ProjectionPathASTNode (fieldNames @ [fieldName])"
    and par: "\<And>x. x < length h \<Longrightarrow> parent (h' ! x) = (if x = node then Some this else parent (h ! x))"
    and chi: "\<And>x. x < length h \<Longrightarrow> children (h' ! x) =
              (if x = this then children (h ! x) @ [node] else children (h ! x))"
    and pay: "\<And>x. x < length h \<Longrightarrow> x \<noteq> this \<Longrightarrow> payload (h' ! x) = payload (h ! x)"
    by blast
  from consistentD(4)[OF wf node] obtain tn where tn: "is_tree h None node tn" by blast
  have notchild: "node \<notin> set (children (h ! a))" if a: "a < length h" for a
    using consistentD(2)[OF wf a, of node] node(2) by auto
  show ?thesis
  proof (rule consistentI)
    fix a assume "a < length h'"
    then have a: "a < length h" using len by simp
    show "distinct (children (h' ! a))"
      using consistentD(1)[OF wf a] chi[OF a] notchild[OF a] by (cases "a = this") simp_all
  next
    fix a c assume "a < length h'" and c: "c \<in> set (children (h' ! a))"
    then have a: "a < length h" using len by simp
    show "c < length h' \<and> parent (h' ! c) = Some a"
    proof (cases "c = node")
      case True
      with c chi[OF a] notchild[OF a] have "a = this" by (auto split: if_splits)
      with True node(1) par[OF node(1)] len show ?thesis by simp
    next
      case False
      with c chi[OF a] have "c \<in> set (children (h ! a))" by (auto split: if_splits)
      from consistentD(2)[OF wf a this] have "c < length h" "parent (h ! c) = Some a" by simp_all
      with par[of c] False len show ?thesis by simp
    qed
  next
    fix a p assume "a < length h'" and p: "parent (h' ! a) = Some p"
    then have a: "a < length h" using len by simp
    show "p < length h' \<and> a \<in> set (children (h' ! p))"
    proof (cases "a = node")
      case True
      with par[OF a] p have "p = this" by simp
      with True thl len chi[OF thl] show ?thesis by simp
    next
      case False
      with par[OF a] p have "parent (h ! a) = Some p" by simp
      from consistentD(3)[OF wf a this] have "p < length h" "a \<in> set (children (h ! p))" by simp_all
      with chi[of p] len show ?thesis by auto
    qed
  next
    fix r assume "r < length h'" and p: "parent (h' ! r) = None"
    then have r: "r < length h" using len by simp
    from par[OF r] p have rn: "r \<noteq> node" and pr: "parent (h ! r) = None" by (auto split: if_splits)
    from consistentD(4)[OF wf r pr] obtain tr where tr: "is_tree h None r tr" by blast
    have nr: "node \<notin> subtree h r"
    proof
      assume "node \<in> subtree h r"
      from subtree_parent[OF tr this] rn node(2) show False by auto
    qed
    show "\<exists>t. is_tree h' None r t"
    proof (cases "this \<in> subtree h r")
      case True
      have "this \<notin> subtree h node"
      proof
        assume "this \<in> subtree h node"
        from roots_disjoint[OF tr tn True this] rn show False by simp
      qed
      from addChild_tree[OF len par chi pay node tn this tr] p show ?thesis by auto
    next
      case False
      have "is_tree h' (parent (h' ! r)) r tr"
      proof (rule is_tree_frame_gen[OF tr])
        show "length h \<le> length h'" using len by simp
        show "\<forall>y\<in>subtree h r. children (h' ! y) = children (h ! y) \<and>
                payload (h' ! y) = payload (h ! y) \<and>
                (parent (h ! y) \<noteq> None \<longrightarrow> parent (h' ! y) = parent (h ! y))"
        proof
          fix y assume y: "y \<in> subtree h r"
          from subtree_bound[OF tr y] have yl: "y < length h" .
          from y False nr have "y \<noteq> this" "y \<noteq> node" by auto
          with par[OF yl] chi[OF yl] pay[OF yl]
          show "children (h' ! y) = children (h ! y) \<and> payload (h' ! y) = payload (h ! y) \<and>
                (parent (h ! y) \<noteq> None \<longrightarrow> parent (h' ! y) = parent (h ! y))" by auto
        qed
      qed
      with p show ?thesis by auto
    qed
  next
    fix a assume "a < length h'"
    then have a: "a < length h" using len by simp
    from consistentD(5)[OF wf a] have ci: "class_inv h a" .
    show "class_inv h' a"
    proof (cases "a = this")
      case True
      from ci k True have "length fieldNames = length (children (h ! this))" by (simp add: class_inv_def)
      with k' chi[OF thl] True show ?thesis by (simp add: class_inv_def)
    next
      case False
      have m: "\<exists>c bson me. children (h' ! a) = [c] \<and> c < length h' \<and>
                       payload (h' ! c) = MatchExpressionASTNode bson me"
        if "\<exists>c bson me. children (h ! a) = [c] \<and> c < length h \<and>
                       payload (h ! c) = MatchExpressionASTNode bson me"
      proof -
        from that obtain c bson me where c: "children (h ! a) = [c]" "c < length h"
          "payload (h ! c) = MatchExpressionASTNode bson me" by blast
        with k have "c \<noteq> this" by auto
        with c pay[of c] chi[OF a] False len show ?thesis by auto
      qed
      show ?thesis
        using ci pay[OF a False] chi[OF a] False m
        by (cases "payload (h ! a)") (auto simp: class_inv_def)
    qed
  qed
qed

lemma class_inv_ast_ok:
  assumes wf: "\<forall>a<length h. class_inv h a"
  shows "is_tree h p a t \<Longrightarrow> ast_ok t"
proof (induction t arbitrary: p a)
  case (Node k ts)
  from Node.prems have a: "a < length h" and k: "payload (h ! a) = k"
    and ch: "are_trees h (Some a) (children (h ! a)) ts" by auto
  from wf a have ci: "class_inv h a" by simp
  have len: "length (children (h ! a)) = length ts" using ch by (rule are_trees_length)
  have one: "length ts = 1 \<and> is_match (hd ts)"
    if "\<exists>c bson me. children (h ! a) = [c] \<and> c < length h \<and>
                       payload (h ! c) = MatchExpressionASTNode bson me"
  proof -
    from that obtain c bson me where c: "children (h ! a) = [c]"
      "payload (h ! c) = MatchExpressionASTNode bson me" by blast
    with len obtain tc where tc: "ts = [tc]" by (cases ts) auto
    with ch c have "is_tree h (Some a) c tc" by simp
    with c(2) have "is_match tc" by (cases tc) auto
    with tc show ?thesis by simp
  qed
  have "kind_ok k ts"
    using ci k len one by (cases k) (auto simp: class_inv_def)
  moreover have "asts_ok ts"
    unfolding asts_ok_iff
  proof
    fix u assume "u \<in> set ts"
    then obtain i where i: "i < length ts" "u = ts ! i" by (auto simp: in_set_conv_nth)
    with len have "is_tree h (Some a) (children (h ! a) ! i) u"
      using are_trees_nth[OF ch, of i] by simp
    with Node.IH[of u] \<open>u \<in> set ts\<close> show "ast_ok u" by blast
  qed
  ultimately show ?case by simp
qed

text \<open>
  \<^verbatim>\<open>clone\<close> follows \<^verbatim>\<open>children()\<close> to the leaves: when it returns a node, the node it was
  called on is the root of a finite tree. The store \<open>H\<close> during the recursion is the
  store \<open>h\<close> of the call followed by the cells made so far.
\<close>

lemma clone_Inr_is_tree:
  fixes X :: "('m, 'e, 'c, 's, 'v, 'x) externals" and h :: "('b, 'm, 'e) heap"
  assumes loc: "\<forall>a<length h. distinct (children (h ! a)) \<and>
                  (\<forall>c \<in> set (children (h ! a)). c < length h \<and> parent (h ! c) = Some a)"
  shows "clone f X H a = Some (Inr r) \<Longrightarrow> take (length h) H = h \<Longrightarrow> a < length h \<Longrightarrow>
         \<exists>t. is_tree h (parent (h ! a)) a t"
    and "clone_children f X H this cs = Some (Inr H1) \<Longrightarrow> take (length h) H = h \<Longrightarrow>
         length h \<le> this \<Longrightarrow> this < length H \<Longrightarrow> \<forall>c \<in> set cs. c < length h \<Longrightarrow>
         \<forall>c \<in> set cs. \<exists>t. is_tree h (parent (h ! c)) c t"
proof (induction f X H a and f X H this cs arbitrary: r and H1 rule: clone_clone_children.induct)
  case (1 X H a)
  then show ?case by (simp add: clone.simps)
next
  case (2 fuel X H a)
  from "2.prems"(2) have "length (take (length h) H) = length h" by simp
  then have lh: "length h \<le> length H" by simp
  from "2.prems"(2,3) have Ha: "H ! a = h ! a" by (metis nth_take)
  from "2.prems"(3) lh have aH: "a < length H" by simp
  let ?h0 = "H @ [\<lparr>parent = None, children = [], payload = payload (H ! a)\<rparr>]"
  have al: "(?h0, length H) = alloc H (payload (H ! a))" by (simp add: alloc_def)
  from "2.prems"(1) aH obtain h1 where
    rc: "clone_children fuel X ?h0 (length H) (children (H ! a)) = Some (Inr h1)"
    by (auto simp: clone.simps alloc_def split: option.splits sum.splits)
  have tk: "take (length h) ?h0 = h" using "2.prems"(2) lh by simp
  from loc "2.prems"(3) have cl: "\<forall>c \<in> set (children (H ! a)). c < length h"
    and cp: "\<forall>c \<in> set (children (h ! a)). parent (h ! c) = Some a"
    and d: "distinct (children (h ! a))"
    unfolding Ha by auto
  from "2.IH"[OF aH refl al rc tk lh _ cl]
  have "\<forall>c \<in> set (children (h ! a)). \<exists>t. is_tree h (parent (h ! c)) c t" unfolding Ha by simp
  with cp have "\<forall>c \<in> set (children (h ! a)). \<exists>t. is_tree h (Some a) c t" by simp
  from are_trees_exists[OF this] obtain ts where "are_trees h (Some a) (children (h ! a)) ts" by blast
  with d "2.prems"(3) have "is_tree h (parent (h ! a)) a (Node (payload (h ! a)) ts)" by simp
  then show ?case by blast
next
  case (3 fuel X H this)
  then show ?case by simp
next
  case (4 fuel X H this c cs)
  from "4.prems"(2) have "length (take (length h) H) = length h" by simp
  then have lh: "length h \<le> length H" by simp
  from "4.prems"(1) obtain H2 c' where rc: "clone fuel X H c = Some (Inr (H2, c'))"
    by (auto simp: clone_children.simps split: option.splits sum.splits)
  from "4.prems"(5) have ch: "c < length h" by simp
  from "4.IH"(1)[OF rc "4.prems"(2) ch] obtain tc where tc: "is_tree h (parent (h ! c)) c tc" by blast
  have "is_tree (take (length h) H) (parent (h ! c)) c tc" using tc "4.prems"(2) by simp
  from is_tree_take(1)[OF this] have tcH: "is_tree H (parent (h ! c)) c tc" .
  from clone_result'[OF tcH rc] obtain tc' where
    H2: "H2 = H @ layout (length H) None tc'" and c': "c' = length H" by blast
  from "4.prems"(1) rc obtain H3 where
    ac: "addChildToInternalVector H2 this (Some c') = (Inr H3 :: 'x error + _)"
    and rest: "clone_children fuel X H3 this cs = Some (Inr H1)"
    by (auto simp: clone_children.simps split: option.splits sum.splits)
  have l2: "length H \<le> length H2" using H2 by simp
  from ac have H3: "H3 = (let h1 = H2[c' := (H2 ! c')\<lparr>parent := Some this\<rparr>]
                          in h1[this := (h1 ! this)\<lparr>children := children (h1 ! this) @ [c']\<rparr>])"
    and l3: "length H3 = length H2"
    by (auto simp: addChildToInternalVector_def Let_def split: if_splits)
  have tk: "take (length h) H3 = h"
    using "4.prems"(2,3) lh c' H2 unfolding H3 Let_def by simp
  have th: "this < length H3" using "4.prems"(4) l2 l3 by simp
  from "4.prems"(5) have cs: "\<forall>c \<in> set cs. c < length h" by simp
  from "4.IH"(2)[OF rc refl refl ac rest tk "4.prems"(3) th cs] tc
  show ?case by auto
qed

lemma consistent_clone:
  assumes wf: "consistent h" and cl: "clone fuel X h a = Some (Inr (h', a'))"
  shows "consistent h'"
proof -
  let ?n = "length h"
  from clone_Inr_valid[OF cl] have a: "a < ?n" .
  have loc: "\<forall>a<length h. distinct (children (h ! a)) \<and>
                  (\<forall>c \<in> set (children (h ! a)). c < length h \<and> parent (h ! c) = Some a)"
    using wf unfolding consistent_def by blast
  from clone_Inr_is_tree(1)[OF loc cl _ a] obtain t where t: "is_tree h (parent (h ! a)) a t" by auto
  from clone_result'[OF t cl] obtain t' where t': "copy_ast X t = Inr t'"
    and h': "h' = h @ layout ?n None t'" and a': "a' = ?n" by blast
  have len: "length h' = ?n + nodes t'" using h' by (simp add: length_layout)
  have old: "h' ! x = h ! x" if "x < ?n" for x using that h' by (simp add: nth_append)
  have "is_tree (h @ layout ?n None t' @ []) None ?n t'" by (rule is_tree_layout)
  then have T': "is_tree h' None ?n t'" using h' by simp
  have cis: "\<forall>a<length h. class_inv h a" using wf unfolding consistent_def by blast
  have ok': "ast_ok t'"
    using same_shape_ok(1)[OF copy_ast_same_shape(1)[OF t'] class_inv_ast_ok[OF cis t]] .
  have new_sub: "x \<in> subtree h' ?n" if "?n \<le> x" "x < length h'" for x
    using layout_subtree[of h x t' None "[]"] that len h' by simp
  have new_tree: "\<exists>tx. is_tree h' (parent (h' ! x)) x tx \<and> ast_ok tx" if "?n \<le> x" "x < length h'" for x
    using subtree_is_tree_ok[OF new_sub[OF that] T' ok'] .
  show ?thesis
  proof (rule consistentI)
    fix x assume x: "x < length h'"
    show "distinct (children (h' ! x))"
    proof (cases "x < ?n")
      case True
      with consistentD(1)[OF wf True] old show ?thesis by simp
    next
      case False
      with new_tree[of x] x obtain tx where tx: "is_tree h' (parent (h' ! x)) x tx" by auto
      then show ?thesis by (cases tx) simp
    qed
  next
    fix x c assume x: "x < length h'" and c: "c \<in> set (children (h' ! x))"
    show "c < length h' \<and> parent (h' ! c) = Some x"
    proof (cases "x < ?n")
      case True
      with c old have "c \<in> set (children (h ! x))" by simp
      from consistentD(2)[OF wf True this] old[of c] len show ?thesis by simp
    next
      case False
      with new_tree[of x] x obtain tx where tx: "is_tree h' (parent (h' ! x)) x tx" by auto
      obtain k ts where "tx = Node k ts" by (cases tx)
      with tx have "are_trees h' (Some x) (children (h' ! x)) ts" by simp
      from are_trees_mem[OF this c] obtain tc where "is_tree h' (Some x) c tc" by blast
      from is_tree_root[OF this] show ?thesis by simp
    qed
  next
    fix x p assume x: "x < length h'" and p: "parent (h' ! x) = Some p"
    show "p < length h' \<and> x \<in> set (children (h' ! p))"
    proof (cases "x < ?n")
      case True
      with p old have "parent (h ! x) = Some p" by simp
      from consistentD(3)[OF wf True this] old[of p] len show ?thesis by simp
    next
      case False
      with x have xs: "x \<in> subtree h' ?n" using new_sub by simp
      from is_tree_root[OF T'] p have "x \<noteq> ?n" by auto
      from subtree_parent[OF T' xs this] p show ?thesis by auto
    qed
  next
    fix x assume x: "x < length h'" and p: "parent (h' ! x) = None"
    show "\<exists>t. is_tree h' None x t"
    proof (cases "x < ?n")
      case True
      with p old have "parent (h ! x) = None" by simp
      from consistentD(4)[OF wf True this] obtain tx where "is_tree h None x tx" by blast
      from is_tree_append[OF this, of "layout ?n None t'"] h' show ?thesis by auto
    next
      case False
      with new_tree[of x] x p show ?thesis by auto
    qed
  next
    fix x assume x: "x < length h'"
    show "class_inv h' x"
    proof (cases "x < ?n")
      case True
      from consistentD(5)[OF wf True] old[OF True] old len show ?thesis
        by (cases "payload (h ! x)") (auto simp: class_inv_def)
    next
      case False
      with new_tree[of x] x obtain tx where "is_tree h' (parent (h' ! x)) x tx" "ast_ok tx" by auto
      then show ?thesis by (rule ast_ok_class_inv)
    qed
  qed
qed

lemma built_consistent:
  fixes X :: "('m, 'e, 'c, 's, 'v, 'x) externals"
  assumes "built X h"
  shows "consistent h"
  using assms
proof (induction rule: built.induct)
  case built_empty
  then show ?case by (simp add: consistent_def)
next
  case (built_MatchExpression h bson me)
  then show ?case
    by (simp add: new_MatchExpressionASTNode_def consistent_alloc new_cell_ok_def)
next
  case (built_Slice h skip limit)
  then show ?case
    by (simp add: new_ProjectionSliceASTNode_def consistent_alloc new_cell_ok_def)
next
  case (built_Expression h expr)
  then show ?case
    by (simp add: new_ExpressionASTNode_def consistent_alloc new_cell_ok_def)
next
  case (built_BooleanConstant h val)
  then show ?case
    by (simp add: new_BooleanConstantASTNode_def consistent_alloc new_cell_ok_def)
next
  case (built_Path_empty h)
  then show ?case
    by (simp add: new_ProjectionPathASTNode_empty_def consistent_alloc new_cell_ok_def)
next
  case (built_Path h cs fieldNames h' a)
  from built_Path.hyps(3) have v: "\<forall>c \<in> set cs. c < length h" by simp
  from new_ProjectionPathASTNode_adoption[OF v built_Path.hyps(4)]
  have ad: "adoption h cs (ProjectionPathASTNode fieldNames) h'" and l: "length cs = length fieldNames"
    by simp_all
  show ?case
    using consistent_adoption[OF built_Path.IH ad built_Path.hyps(2)] built_Path.hyps(3) l
    by (simp add: isRoot_def new_cell_ok_def)
next
  case (built_Positional h c bson me h' a)
  from new_Positional_adoption[OF built_Positional.hyps(2,5)]
  have ad: "adoption h [c] ProjectionPositionalASTNode h'" by simp
  show ?case
    using consistent_adoption[OF built_Positional.IH ad] built_Positional.hyps(2,3,4)
    by (simp add: isRoot_def new_cell_ok_def)
next
  case (built_ElemMatch h c bson me h' a)
  from new_ElemMatch_adoption[OF built_ElemMatch.hyps(2,5)]
  have ad: "adoption h [c] ProjectionElemMatchASTNode h'" by simp
  show ?case
    using consistent_adoption[OF built_ElemMatch.IH ad] built_ElemMatch.hyps(2,3,4)
    by (simp add: isRoot_def new_cell_ok_def)
next
  case (built_addChild h node this fieldName h')
  then show ?case
    using consistent_addChild[of h node this fieldName h'] by (simp add: isRoot_def)
next
  case (built_clone h fuel a h' a')
  then show ?case using consistent_clone by blast
qed

section \<open>The visitor\<close>

text \<open>
  C8. \<^verbatim>\<open>acceptVisitor\<close> on a node of each of the seven concrete classes calls the
  \<^verbatim>\<open>visit\<close> overload declared for that class, with the node itself as argument, and
  nothing else: the result is that of the one call, and a visitor that records its calls
  has recorded one call, of that overload on that node.
\<close>

theorem acceptVisitor_dispatch:
  "acceptVisitor h a recorder w = w @ [(declared_for (payload (h ! a)), a)] \<and>
   (payload (h ! a) = MatchExpressionASTNode b m \<longrightarrow>
      acceptVisitor h a V s = visit_MatchExpressionASTNode V a s) \<and>
   (payload (h ! a) = ProjectionPathASTNode fieldNames \<longrightarrow>
      acceptVisitor h a V s = visit_ProjectionPathASTNode V a s) \<and>
   (payload (h ! a) = ProjectionPositionalASTNode \<longrightarrow>
      acceptVisitor h a V s = visit_ProjectionPositionalASTNode V a s) \<and>
   (payload (h ! a) = ProjectionSliceASTNode skip limit \<longrightarrow>
      acceptVisitor h a V s = visit_ProjectionSliceASTNode V a s) \<and>
   (payload (h ! a) = ProjectionElemMatchASTNode \<longrightarrow>
      acceptVisitor h a V s = visit_ProjectionElemMatchASTNode V a s) \<and>
   (payload (h ! a) = ExpressionASTNode expr \<longrightarrow>
      acceptVisitor h a V s = visit_ExpressionASTNode V a s) \<and>
   (payload (h ! a) = BooleanConstantASTNode val \<longrightarrow>
      acceptVisitor h a V s = visit_BooleanConstantASTNode V a s)"
  by (cases "payload (h ! a)") (simp_all add: acceptVisitor_def recorder_def)

theorem acceptVisitor_dispatch_witness:
  "payload (fst (new_ProjectionSliceASTNode ([] :: toy_heap) (Some 2) 5) ! 0) =
     ProjectionSliceASTNode (Some 2) 5 \<and>
   acceptVisitor (fst (new_ProjectionSliceASTNode ([] :: toy_heap) (Some 2) 5)) 0 recorder [] =
     [(Visit_ProjectionSliceASTNode, 0)] \<and>
   acceptVisitor (fst (new_ProjectionSliceASTNode ([] :: toy_heap) (Some 2) 5)) 0 recorder [] =
     visit_ProjectionSliceASTNode recorder 0 []"
  using acceptVisitor_dispatch
          [of "fst (new_ProjectionSliceASTNode ([] :: toy_heap) (Some 2) 5)" 0 "[]"
              _ _ recorder "[]" _ "Some 2" 5]
  by (simp add: new_ProjectionSliceASTNode_def alloc_def recorder_def)

section \<open>Cloning an expression node\<close>

text \<open>
  C6. The clone of an \<^verbatim>\<open>ExpressionASTNode\<close> holds the expression that
  \<^verbatim>\<open>parseOperand\<close> returns for the element \<^verbatim>\<open>"": other._expr->serialize(false)\<close>,
  parsed under the expression context of the original expression and the variables parse
  state of that context; when parsing the serialised form of an expression gives that
  expression back, the clone holds the original expression.
\<close>

theorem clone_ExpressionASTNode:
  assumes "a < length h"
    and "payload (h ! a) = ExpressionASTNode (Some e)"
    and "children (h ! a) = []"
  shows "clone (Suc fuel) X h a =
           Some (case parseOperand X (getExpressionContext X e) ('''', serialize X e False)
                        (variablesParseState X (getExpressionContext X e)) of
                   Inl x \<Rightarrow> Inl (ParseFailure x)
                 | Inr e' \<Rightarrow> Inr (alloc h (ExpressionASTNode (Some e')))) \<and>
         ((\<forall>e. parseOperand X (getExpressionContext X e) ('''', serialize X e False)
                 (variablesParseState X (getExpressionContext X e)) = Inr e) \<longrightarrow>
          clone (Suc fuel) X h a = Some (Inr (alloc h (ExpressionASTNode (Some e)))))"
  using assms by (simp add: clone_leaf copy_members_def split: sum.splits)

theorem clone_ExpressionASTNode_witness:
  "clone (Suc 0) toy ([\<lparr>parent = None, children = [], payload = ExpressionASTNode (Some ''$x'')\<rparr>] :: toy_heap) 0 =
     Some (Inr ([\<lparr>parent = None, children = [], payload = ExpressionASTNode (Some ''$x'')\<rparr>,
                 \<lparr>parent = None, children = [], payload = ExpressionASTNode (Some ''$x'')\<rparr>], 1))"
  using clone_ExpressionASTNode
          [of 0 "[\<lparr>parent = None, children = [], payload = ExpressionASTNode (Some ''$x'')\<rparr>] :: toy_heap"
              "''$x''" 0 toy]
  by (simp add: toy_def alloc_def)

text \<open>
  C7. When \<^verbatim>\<open>parseOperand\<close> throws while an \<^verbatim>\<open>ExpressionASTNode\<close> is cloned, the
  exception leaves \<^verbatim>\<open>clone\<close>: the caller gets the parser's exception, which is not the
  abort of a failed \<^verbatim>\<open>invariant\<close>; and no clone, of any node of any store, with any
  fuel, ends in that abort.
\<close>

theorem clone_parse_failure_surfaces:
  assumes "a < length h"
    and "payload (h ! a) = ExpressionASTNode (Some e)"
    and "children (h ! a) = []"
    and "parseOperand X (getExpressionContext X e) ('''', serialize X e False)
           (variablesParseState X (getExpressionContext X e)) = Inl x"
  shows "clone (Suc fuel) X h a = Some (Inl (ParseFailure x)) \<and>
         ParseFailure x \<noteq> InvariantFailure \<and>
         clone fuel' X h' a' \<noteq> Some (Inl InvariantFailure)"
  using assms clone_no_abort(1)[of fuel' X h' a']
  by (simp add: clone_leaf copy_members_def)

theorem clone_parse_failure_surfaces_witness:
  "clone (Suc 0) toy ([\<lparr>parent = None, children = [], payload = ExpressionASTNode (Some ''$bad'')\<rparr>] :: toy_heap) 0 =
     Some (Inl (ParseFailure ''unparsable''))"
  using clone_parse_failure_surfaces
          [of 0 "[\<lparr>parent = None, children = [], payload = ExpressionASTNode (Some ''$bad'')\<rparr>] :: toy_heap"
              "''$bad''" toy "''unparsable''" 0 0 "[] :: toy_heap" 0]
  by (simp add: toy_def)


section \<open>Cloning a tree\<close>

text \<open>
  C3. Whenever \<open>a\<close> is the root of a well-formed tree \<open>t\<close> in the store, \<^verbatim>\<open>clone\<close>
  returns (fuel above the depth of the tree is enough); when it returns a node, that node
  is the root of a well-formed tree of the same shape as \<open>t\<close>: at every position the same
  concrete class, as many children in the same order, the same field names, the same skip
  and limit, the same boolean. It returns a node whenever the members of every node of
  \<open>t\<close> can be copied (no null \<^verbatim>\<open>_matchExpr\<close> or \<^verbatim>\<open>_expr\<close>, no expression the parser
  rejects).
\<close>

theorem clone_same_shape:
  assumes "is_tree h p a t" and "depth t \<le> fuel"
  shows "\<exists>r. clone fuel X h a = Some r \<and>
           (\<forall>h' a'. r = Inr (h', a') \<longrightarrow> (\<exists>t'. is_tree h' None a' t' \<and> same_shape t t')) \<and>
           (list_all (\<lambda>k. \<not> isl (copy_members X k)) (kinds t) \<longrightarrow> \<not> isl r)"
proof -
  from clone_total[OF assms] obtain r where r: "clone fuel X h a = Some r" by blast
  have 1: "\<exists>t'. is_tree h' None a' t' \<and> same_shape t t'" if "r = Inr (h', a')" for h' a'
  proof -
    from clone_result[OF assms] r that obtain t'
      where t': "copy_ast X t = Inr t'" "h' = h @ layout (length h) None t'" "a' = length h"
      by blast
    have "is_tree (h @ layout (length h) None t' @ []) None (length h) t'" by (rule is_tree_layout)
    with t' copy_ast_same_shape(1)[OF t'(1)] show ?thesis by auto
  qed
  have 2: "\<not> isl r" if "list_all (\<lambda>k. \<not> isl (copy_members X k)) (kinds t)"
  proof -
    from copy_ast_succeeds(1)[OF that] obtain t' where "copy_ast X t = Inr t'" by blast
    with clone_spec[OF assms, of X] r show ?thesis by simp
  qed
  from r 1 2 show ?thesis by blast
qed

theorem clone_same_shape_witness:
  "is_tree example_heap None 2 example_tree \<and> depth example_tree \<le> Suc (Suc 0) \<and>
   list_all (\<lambda>k. \<not> isl (copy_members toy k)) (kinds example_tree) \<and>
   clone (Suc (Suc 0)) toy example_heap 2 =
     Some (Inr (example_heap @
       [\<lparr>parent = None, children = [4, 5], payload = ProjectionPathASTNode [''a'', ''b'']\<rparr>,
        \<lparr>parent = Some 3, children = [], payload = BooleanConstantASTNode True\<rparr>,
        \<lparr>parent = Some 3, children = [], payload = ProjectionSliceASTNode (Some 2) 5\<rparr>], 3)) \<and>
   (\<exists>r. clone (Suc (Suc 0)) toy example_heap 2 = Some r \<and>
        (\<forall>h' a'. r = Inr (h', a') \<longrightarrow>
           (\<exists>t'. is_tree h' None a' t' \<and> same_shape example_tree t')) \<and>
        (list_all (\<lambda>k. \<not> isl (copy_members toy k)) (kinds example_tree) \<longrightarrow> \<not> isl r))"
proof -
  have k: "list_all (\<lambda>k. \<not> isl (copy_members toy k)) (kinds example_tree)"
    by (simp add: example_tree_def copy_members_def)
  from example_is_tree example_depth k example_clone
    clone_same_shape[OF example_is_tree example_depth, of toy]
  show ?thesis by (intro conjI)
qed

text \<open>
  C10. The node \<^verbatim>\<open>clone\<close> returns has a null \<^verbatim>\<open>_parent\<close> and \<^verbatim>\<open>isRoot()\<close> holds
  of it, whatever the parent \<open>p\<close> of the node cloned; once a node adopts the clone
  through \<^verbatim>\<open>addChildToInternalVector\<close>, that node is its parent.
\<close>

theorem clone_is_root:
  assumes "is_tree h p a t" and "depth t \<le> fuel"
  shows "\<exists>r. clone fuel X h a = Some r \<and>
           (\<forall>h' a'. r = Inr (h', a') \<longrightarrow>
              a' < length h' \<and> parent_of h' a' = None \<and> isRoot h' a' \<and>
              (\<forall>q h''. addChildToInternalVector h' q (Some a') = Inr h'' \<longrightarrow>
                        parent_of h'' a' = Some q \<and> \<not> isRoot h'' a'))"
proof -
  from clone_total[OF assms] obtain r where r: "clone fuel X h a = Some r" by blast
  have "a' < length h' \<and> parent_of h' a' = None \<and> isRoot h' a' \<and>
              (\<forall>q h''. addChildToInternalVector h' q (Some a') = (Inr h'' :: 'x error + _) \<longrightarrow>
                        parent_of h'' a' = Some q \<and> \<not> isRoot h'' a')" if "r = Inr (h', a')" for h' a'
  proof -
    from clone_result[OF assms] r that obtain t'
      where t': "copy_ast X t = Inr t'" "h' = h @ layout (length h) None t'" "a' = length h"
      by blast
    have "is_tree (h @ layout (length h) None t' @ []) None (length h) t'" by (rule is_tree_layout)
    with t' have "is_tree h' None a' t'" by simp
    from is_tree_root[OF this] show ?thesis
      by (auto simp: parent_of_def isRoot_def addChildToInternalVector_def Let_def nth_list_update
               split: if_splits)
  qed
  with r show ?thesis by blast
qed

theorem clone_is_root_witness:
  "is_tree example_heap (Some 2) 1 (Node (ProjectionSliceASTNode (Some 2) 5) []) \<and>
   \<not> isRoot example_heap 1 \<and>
   clone (Suc 0) toy example_heap 1 =
     Some (Inr (example_heap @
       [\<lparr>parent = None, children = [], payload = ProjectionSliceASTNode (Some 2) 5\<rparr>], 3)) \<and>
   isRoot (example_heap @
       [\<lparr>parent = None, children = [], payload = ProjectionSliceASTNode (Some 2) 5\<rparr>]) 3"
proof -
  have t: "is_tree example_heap (Some 2) 1 (Node (ProjectionSliceASTNode (Some 2) 5) [])"
    by (simp add: example_heap_def)
  have d: "depth (Node (ProjectionSliceASTNode (Some 2) 5) [] :: (nat, string, string) ast) \<le> Suc 0"
    by simp
  have r: "\<not> isRoot example_heap 1" by (simp add: isRoot_def example_heap_def)
  from clone_is_root[OF t d, of toy] example_clone_interior
  have i: "isRoot (example_heap @
       [\<lparr>parent = None, children = [], payload = ProjectionSliceASTNode (Some 2) 5\<rparr>]) 3"
    by auto
  from t r example_clone_interior i show ?thesis by (intro conjI)
qed

text \<open>
  C4, with the expression context as a second exception. A clone writes to no cell that
  existed before it, and every cell of the tree it returns is a new cell; the cells of
  the tree cloned are old cells. So whatever is written afterwards to the old cells, the
  clone still reads as the same tree, and whatever is written to the new cells, the
  original (with its parent link) still reads as the same tree. The \<^verbatim>\<open>_matchExpr\<close> of
  the clone are the objects \<^verbatim>\<open>shallowClone\<close> returned for those of the original, and its
  \<^verbatim>\<open>_expr\<close> are the objects the parser returned for the serialised expressions of the
  original. When these two operations return new objects, no match expression and no
  expression of the clone is an object that existed before, so a write to an object of
  one tree is not read through the other. The two trees share two things: the
  \<^verbatim>\<open>BSONObj\<close> handles of their \<^verbatim>\<open>MatchExpressionASTNode\<close>s, and the expression contexts
  of their \<^verbatim>\<open>ExpressionASTNode\<close>s: each expression of the clone holds the context of the
  expression it was made from, so what is written to that context through the clone is
  read through the original.
\<close>

theorem clone_independent:
  fixes X :: "('m, 'e, 'c, 's, 'v, 'x) externals"
  assumes "is_tree h p a t" and "depth t \<le> fuel"
  shows "\<exists>r. clone fuel X h a = Some r \<and>
           (\<forall>h' a'. r = Inr (h', a') \<longrightarrow>
              take (length h) h' = h \<and>
              subtree h' a' \<subseteq> {length h..<length h'} \<and>
              subtree h' a \<subseteq> {..<length h} \<and>
              (\<exists>t'. is_tree h' None a' t' \<and>
                 (\<forall>h2. length h' \<le> length h2 \<and>
                       (\<forall>y \<in> {length h..<length h'}. h2 ! y = h' ! y) \<longrightarrow>
                       is_tree h2 None a' t') \<and>
                 buffers t' = buffers t \<and>
                 match_objects t' = map (shallowClone X) (match_objects t) \<and>
                 map Inr (expr_objects t') = map (reparsed X) (expr_objects t) \<and>
                 (\<forall>Lm Le. returns_new_objects X Lm Le \<longrightarrow>
                    set (match_objects t') \<inter> Lm = {} \<and> set (expr_objects t') \<inter> Le = {} \<and>
                    (set (match_objects t) \<subseteq> Lm \<longrightarrow>
                       (\<forall>(M :: 'm \<Rightarrow> 'mv) v. \<forall>m \<in> set (match_objects t). \<forall>m' \<in> set (match_objects t').
                          (M(m' := v)) m = M m \<and> (M(m := v)) m' = M m')) \<and>
                    (set (expr_objects t) \<subseteq> Le \<longrightarrow>
                       (\<forall>(E :: 'e \<Rightarrow> 'ev) v. \<forall>e \<in> set (expr_objects t). \<forall>e' \<in> set (expr_objects t').
                          (E(e' := v)) e = E e \<and> (E(e := v)) e' = E e')) \<and>
                    map (getExpressionContext X) (expr_objects t') =
                      map (getExpressionContext X) (expr_objects t) \<and>
                    (\<forall>(C :: 'c \<Rightarrow> 'cv) v. \<forall>i<length (expr_objects t).
                       (C(getExpressionContext X (expr_objects t' ! i) := v))
                         (getExpressionContext X (expr_objects t ! i)) = v))) \<and>
              (\<forall>h2. length h \<le> length h2 \<and> (\<forall>y<length h. h2 ! y = h' ! y) \<longrightarrow>
                    is_tree h2 p a t))"
proof -
  from clone_total[OF assms] obtain r where r: "clone fuel X h a = Some r" by blast
  have "take (length h) h' = h \<and>
              subtree h' a' \<subseteq> {length h..<length h'} \<and>
              subtree h' a \<subseteq> {..<length h} \<and>
              (\<exists>t'. is_tree h' None a' t' \<and>
                 (\<forall>h2. length h' \<le> length h2 \<and>
                       (\<forall>y \<in> {length h..<length h'}. h2 ! y = h' ! y) \<longrightarrow>
                       is_tree h2 None a' t') \<and>
                 buffers t' = buffers t \<and>
                 match_objects t' = map (shallowClone X) (match_objects t) \<and>
                 map Inr (expr_objects t') = map (reparsed X) (expr_objects t) \<and>
                 (\<forall>Lm Le. returns_new_objects X Lm Le \<longrightarrow>
                    set (match_objects t') \<inter> Lm = {} \<and> set (expr_objects t') \<inter> Le = {} \<and>
                    (set (match_objects t) \<subseteq> Lm \<longrightarrow>
                       (\<forall>(M :: 'm \<Rightarrow> 'mv) v. \<forall>m \<in> set (match_objects t). \<forall>m' \<in> set (match_objects t').
                          (M(m' := v)) m = M m \<and> (M(m := v)) m' = M m')) \<and>
                    (set (expr_objects t) \<subseteq> Le \<longrightarrow>
                       (\<forall>(E :: 'e \<Rightarrow> 'ev) v. \<forall>e \<in> set (expr_objects t). \<forall>e' \<in> set (expr_objects t').
                          (E(e' := v)) e = E e \<and> (E(e := v)) e' = E e')) \<and>
                    map (getExpressionContext X) (expr_objects t') =
                      map (getExpressionContext X) (expr_objects t) \<and>
                    (\<forall>(C :: 'c \<Rightarrow> 'cv) v. \<forall>i<length (expr_objects t).
                       (C(getExpressionContext X (expr_objects t' ! i) := v))
                         (getExpressionContext X (expr_objects t ! i)) = v))) \<and>
              (\<forall>h2. length h \<le> length h2 \<and> (\<forall>y<length h. h2 ! y = h' ! y) \<longrightarrow>
                    is_tree h2 p a t)"
    if "r = Inr (h', a')" for h' a'
  proof -
    from clone_result[OF assms] r that obtain t'
      where t': "copy_ast X t = Inr t'" and h': "h' = h @ layout (length h) None t'"
        and a': "a' = length h"
      by blast
    have len: "length h' = length h + nodes t'" using h' by (simp add: length_layout)
    have old: "\<forall>y<length h. h' ! y = h ! y" using h' by (simp add: nth_append)
    have f1: "take (length h) h' = h" using h' by simp
    have "is_tree (h @ layout (length h) None t' @ []) None (length h) t'" by (rule is_tree_layout)
    then have T': "is_tree h' None a' t'" using h' a' by simp
    have f2: "subtree h' a' \<subseteq> {length h..<length h'}"
    proof
      fix x assume "x \<in> subtree h' a'"
      then have "x \<in> subtree (h @ layout (length h) None t') (length h)" using h' a' by simp
      from subtree_layout_bound[OF this] show "x \<in> {length h..<length h'}" using len by simp
    qed
    have le: "length h \<le> length h'" using len by simp
    have f3: "subtree h' a \<subseteq> {..<length h}"
    proof
      fix x assume "x \<in> subtree h' a"
      from subtree_agree[OF assms(1) old le this] have "x \<in> subtree h a" .
      from subtree_bound[OF assms(1) this] show "x \<in> {..<length h}" by simp
    qed
    have 4: "is_tree h2 None a' t'"
      if c: "length h' \<le> length h2 \<and> (\<forall>y \<in> {length h..<length h'}. h2 ! y = h' ! y)" for h2
    proof (rule is_tree_frame[OF T'])
      show "length h' \<le> length h2" using c by simp
      show "\<forall>y\<in>subtree h' a'. h2 ! y = h' ! y" using c f2 by blast
    qed
    have 5: "is_tree h2 p a t"
      if c: "length h \<le> length h2 \<and> (\<forall>y<length h. h2 ! y = h' ! y)" for h2
    proof (rule is_tree_frame[OF assms(1)])
      show "length h \<le> length h2" using c by simp
      show "\<forall>y\<in>subtree h a. h2 ! y = h ! y"
      proof
        fix y assume "y \<in> subtree h a"
        from subtree_bound[OF assms(1) this] have "y < length h" .
        with c old show "h2 ! y = h ! y" by simp
      qed
    qed
    have mo: "match_objects t' = map (shallowClone X) (match_objects t)"
      using copy_ast_match_objects(1)[OF t'] .
    have eo: "map Inr (expr_objects t') = map (reparsed X) (expr_objects t)"
      using copy_ast_expr_objects(1)[OF t'] .
    have el: "length (expr_objects t') = length (expr_objects t)" using eo by (metis length_map)
    have 6: "set (match_objects t') \<inter> Lm = {} \<and> set (expr_objects t') \<inter> Le = {} \<and>
                    (set (match_objects t) \<subseteq> Lm \<longrightarrow>
                       (\<forall>(M :: 'm \<Rightarrow> 'mv) v. \<forall>m \<in> set (match_objects t). \<forall>m' \<in> set (match_objects t').
                          (M(m' := v)) m = M m \<and> (M(m := v)) m' = M m')) \<and>
                    (set (expr_objects t) \<subseteq> Le \<longrightarrow>
                       (\<forall>(E :: 'e \<Rightarrow> 'ev) v. \<forall>e \<in> set (expr_objects t). \<forall>e' \<in> set (expr_objects t').
                          (E(e' := v)) e = E e \<and> (E(e := v)) e' = E e')) \<and>
                    map (getExpressionContext X) (expr_objects t') =
                      map (getExpressionContext X) (expr_objects t) \<and>
                    (\<forall>(C :: 'c \<Rightarrow> 'cv) v. \<forall>i<length (expr_objects t).
                       (C(getExpressionContext X (expr_objects t' ! i) := v))
                         (getExpressionContext X (expr_objects t ! i)) = v)"
      if c: "returns_new_objects X Lm Le" for Lm Le
    proof -
      note n = new_objects[OF c mo eo]
      have a: "\<forall>(M :: 'm \<Rightarrow> 'mv) v. \<forall>m \<in> set (match_objects t). \<forall>m' \<in> set (match_objects t').
                          (M(m' := v)) m = M m \<and> (M(m := v)) m' = M m'"
        if "set (match_objects t) \<subseteq> Lm"
        using that n(1) by auto
      have b: "\<forall>(E :: 'e \<Rightarrow> 'ev) v. \<forall>e \<in> set (expr_objects t). \<forall>e' \<in> set (expr_objects t').
                          (E(e' := v)) e = E e \<and> (E(e := v)) e' = E e'"
        if "set (expr_objects t) \<subseteq> Le"
        using that n(2) by auto
      have d: "\<forall>(C :: 'c \<Rightarrow> 'cv) v. \<forall>i<length (expr_objects t).
                       (C(getExpressionContext X (expr_objects t' ! i) := v))
                         (getExpressionContext X (expr_objects t ! i)) = v"
      proof (intro allI impI)
        fix C :: "'c \<Rightarrow> 'cv" and v i assume i: "i < length (expr_objects t)"
        from n(3) have "map (getExpressionContext X) (expr_objects t') ! i =
                        map (getExpressionContext X) (expr_objects t) ! i" by simp
        with i el have "getExpressionContext X (expr_objects t' ! i) =
                        getExpressionContext X (expr_objects t ! i)" by simp
        then show "(C(getExpressionContext X (expr_objects t' ! i) := v))
                         (getExpressionContext X (expr_objects t ! i)) = v" by simp
      qed
      from n(1) n(2) a b n(3) d show ?thesis by blast
    qed
    have f4: "\<exists>t'. is_tree h' None a' t' \<and>
                 (\<forall>h2. length h' \<le> length h2 \<and>
                       (\<forall>y \<in> {length h..<length h'}. h2 ! y = h' ! y) \<longrightarrow>
                       is_tree h2 None a' t') \<and>
                 buffers t' = buffers t \<and>
                 match_objects t' = map (shallowClone X) (match_objects t) \<and>
                 map Inr (expr_objects t') = map (reparsed X) (expr_objects t) \<and>
                 (\<forall>Lm Le. returns_new_objects X Lm Le \<longrightarrow>
                    set (match_objects t') \<inter> Lm = {} \<and> set (expr_objects t') \<inter> Le = {} \<and>
                    (set (match_objects t) \<subseteq> Lm \<longrightarrow>
                       (\<forall>(M :: 'm \<Rightarrow> 'mv) v. \<forall>m \<in> set (match_objects t). \<forall>m' \<in> set (match_objects t').
                          (M(m' := v)) m = M m \<and> (M(m := v)) m' = M m')) \<and>
                    (set (expr_objects t) \<subseteq> Le \<longrightarrow>
                       (\<forall>(E :: 'e \<Rightarrow> 'ev) v. \<forall>e \<in> set (expr_objects t). \<forall>e' \<in> set (expr_objects t').
                          (E(e' := v)) e = E e \<and> (E(e := v)) e' = E e')) \<and>
                    map (getExpressionContext X) (expr_objects t') =
                      map (getExpressionContext X) (expr_objects t) \<and>
                    (\<forall>(C :: 'c \<Rightarrow> 'cv) v. \<forall>i<length (expr_objects t).
                       (C(getExpressionContext X (expr_objects t' ! i) := v))
                         (getExpressionContext X (expr_objects t ! i)) = v))"
      apply (rule exI[of _ t'])
      apply (intro conjI)
           apply (rule T')
          apply (use 4 in blast)
         apply (rule copy_ast_buffers(1)[OF t'])
        apply (rule mo)
       apply (rule eo)
      apply (use 6 in blast)
      done
    have f5: "\<forall>h2. length h \<le> length h2 \<and> (\<forall>y<length h. h2 ! y = h' ! y) \<longrightarrow>
                    is_tree h2 p a t"
      using 5 by blast
    show ?thesis
      apply (intro conjI)
          apply (rule f1)
         apply (rule f2)
        apply (rule f3)
       apply (rule f4)
      apply (rule f5)
      done
  qed
  with r show ?thesis by blast
qed

theorem clone_independent_witness:
  "is_tree objects_heap None 3 objects_tree \<and>
   depth objects_tree \<le> Suc (Suc (Suc 0)) \<and>
   returns_new_objects toy_objects {..<100} {e. fst e < 100} \<and>
   match_objects objects_tree = [2] \<and> expr_objects objects_tree = [(1, 3)] \<and>
   buffers objects_tree = [7] \<and>
   set (match_objects objects_tree) \<subseteq> {..<100} \<and>
   set (expr_objects objects_tree) \<subseteq> {e. fst e < 100} \<and>
   clone (Suc (Suc (Suc 0))) toy_objects objects_heap 3 = Some (Inr (objects_clone_heap, 4)) \<and>
   (example_matches(102 := ''{a: 2}'')) 2 = example_matches 2 \<and>
   (example_matches(2 := ''{a: 2}'')) 102 = example_matches 102 \<and>
   (example_expressions((100, 3) := ''$y'')) (1, 3) = example_expressions (1, 3) \<and>
   (example_expressions((1, 3) := ''$y'')) (100, 3) = example_expressions (100, 3) \<and>
   (example_contexts(3 := ''fr'')) 3 = ''fr'' \<and>
   (\<exists>t'. is_tree objects_clone_heap None 4 t' \<and> buffers t' = [7] \<and>
         match_objects t' = [102] \<and> expr_objects t' = [(100, 3)] \<and>
         set (match_objects t') \<inter> {..<100} = {} \<and>
         set (expr_objects t') \<inter> {e. fst e < 100} = {} \<and>
         map (getExpressionContext toy_objects) (expr_objects t') = [3] \<and>
         is_tree (objects_clone_heap[2 := \<lparr>parent = None, children = [],
                     payload = BooleanConstantASTNode False\<rparr>]) None 4 t') \<and>
   is_tree (objects_clone_heap[4 := \<lparr>parent = None, children = [],
              payload = BooleanConstantASTNode False\<rparr>]) None 3 objects_tree"
proof -
  let ?h' = "objects_clone_heap"
  have "\<exists>r. clone (Suc (Suc (Suc 0))) toy_objects objects_heap 3 = Some r \<and>
           (\<forall>h' a'. r = Inr (h', a') \<longrightarrow>
              take (length objects_heap) h' = objects_heap \<and>
              subtree h' a' \<subseteq> {length objects_heap..<length h'} \<and>
              subtree h' 3 \<subseteq> {..<length objects_heap} \<and>
              (\<exists>t'. is_tree h' None a' t' \<and>
                 (\<forall>h2. length h' \<le> length h2 \<and>
                       (\<forall>y \<in> {length objects_heap..<length h'}. h2 ! y = h' ! y) \<longrightarrow>
                       is_tree h2 None a' t') \<and>
                 buffers t' = buffers objects_tree \<and>
                 match_objects t' = map (shallowClone toy_objects) (match_objects objects_tree) \<and>
                 map Inr (expr_objects t') = map (reparsed toy_objects) (expr_objects objects_tree) \<and>
                 (\<forall>Lm Le. returns_new_objects toy_objects Lm Le \<longrightarrow>
                    set (match_objects t') \<inter> Lm = {} \<and> set (expr_objects t') \<inter> Le = {} \<and>
                    (set (match_objects objects_tree) \<subseteq> Lm \<longrightarrow>
                       (\<forall>(M :: nat \<Rightarrow> string) v. \<forall>m \<in> set (match_objects objects_tree).
                          \<forall>m' \<in> set (match_objects t').
                          (M(m' := v)) m = M m \<and> (M(m := v)) m' = M m')) \<and>
                    (set (expr_objects objects_tree) \<subseteq> Le \<longrightarrow>
                       (\<forall>(E :: nat \<times> nat \<Rightarrow> string) v. \<forall>e \<in> set (expr_objects objects_tree).
                          \<forall>e' \<in> set (expr_objects t').
                          (E(e' := v)) e = E e \<and> (E(e := v)) e' = E e')) \<and>
                    map (getExpressionContext toy_objects) (expr_objects t') =
                      map (getExpressionContext toy_objects) (expr_objects objects_tree) \<and>
                    (\<forall>(C :: nat \<Rightarrow> string) v. \<forall>i<length (expr_objects objects_tree).
                       (C(getExpressionContext toy_objects (expr_objects t' ! i) := v))
                         (getExpressionContext toy_objects (expr_objects objects_tree ! i)) = v))) \<and>
              (\<forall>h2. length objects_heap \<le> length h2 \<and>
                    (\<forall>y<length objects_heap. h2 ! y = h' ! y) \<longrightarrow>
                    is_tree h2 None 3 objects_tree))"
    (is "\<exists>r. _ = Some r \<and> (\<forall>h' a'. r = Inr (h', a') \<longrightarrow> ?Q h' a')")
    by (rule clone_independent[OF objects_is_tree objects_depth])
  then obtain r where r: "clone (Suc (Suc (Suc 0))) toy_objects objects_heap 3 = Some r \<and>
           (\<forall>h' a'. r = Inr (h', a') \<longrightarrow> ?Q h' a')" ..
  from conjunct1[OF r] objects_clone have "r = Inr (?h', 4)" by simp
  from conjunct2[OF r, rule_format, OF this] have all: "?Q ?h' 4" .
  have m: "match_objects objects_tree = [2]" and e: "expr_objects objects_tree = [(1, 3)]"
    and b: "buffers objects_tree = [7]"
    by (simp_all add: objects_tree_def)
  from all have "\<exists>t'. is_tree ?h' None 4 t' \<and>
                 (\<forall>h2. length ?h' \<le> length h2 \<and>
                       (\<forall>y \<in> {length objects_heap..<length ?h'}. h2 ! y = ?h' ! y) \<longrightarrow>
                       is_tree h2 None 4 t') \<and>
                 buffers t' = buffers objects_tree \<and>
                 match_objects t' = map (shallowClone toy_objects) (match_objects objects_tree) \<and>
                 map Inr (expr_objects t') = map (reparsed toy_objects) (expr_objects objects_tree) \<and>
                 (\<forall>Lm Le. returns_new_objects toy_objects Lm Le \<longrightarrow>
                    set (match_objects t') \<inter> Lm = {} \<and> set (expr_objects t') \<inter> Le = {} \<and>
                    (set (match_objects objects_tree) \<subseteq> Lm \<longrightarrow>
                       (\<forall>(M :: nat \<Rightarrow> string) v. \<forall>m \<in> set (match_objects objects_tree).
                          \<forall>m' \<in> set (match_objects t').
                          (M(m' := v)) m = M m \<and> (M(m := v)) m' = M m')) \<and>
                    (set (expr_objects objects_tree) \<subseteq> Le \<longrightarrow>
                       (\<forall>(E :: nat \<times> nat \<Rightarrow> string) v. \<forall>e \<in> set (expr_objects objects_tree).
                          \<forall>e' \<in> set (expr_objects t').
                          (E(e' := v)) e = E e \<and> (E(e := v)) e' = E e')) \<and>
                    map (getExpressionContext toy_objects) (expr_objects t') =
                      map (getExpressionContext toy_objects) (expr_objects objects_tree) \<and>
                    (\<forall>(C :: nat \<Rightarrow> string) v. \<forall>i<length (expr_objects objects_tree).
                       (C(getExpressionContext toy_objects (expr_objects t' ! i) := v))
                         (getExpressionContext toy_objects (expr_objects objects_tree ! i)) = v))"
    (is "\<exists>t'. ?T t'")
    by (elim conjE)
  then obtain t' where T: "?T t'" ..
  from T have t': "is_tree ?h' None 4 t'" by (elim conjE)
  from T have fr: "\<forall>h2. length ?h' \<le> length h2 \<and>
                       (\<forall>y \<in> {length objects_heap..<length ?h'}. h2 ! y = ?h' ! y) \<longrightarrow>
                       is_tree h2 None 4 t'" by (elim conjE)
  from T have bt: "buffers t' = buffers objects_tree" by (elim conjE)
  from T have mt: "match_objects t' = map (shallowClone toy_objects) (match_objects objects_tree)"
    by (elim conjE)
  from T have et: "map Inr (expr_objects t') = map (reparsed toy_objects) (expr_objects objects_tree)"
    by (elim conjE)
  from T have nw: "\<forall>Lm Le. returns_new_objects toy_objects Lm Le \<longrightarrow>
                    set (match_objects t') \<inter> Lm = {} \<and> set (expr_objects t') \<inter> Le = {} \<and>
                    (set (match_objects objects_tree) \<subseteq> Lm \<longrightarrow>
                       (\<forall>(M :: nat \<Rightarrow> string) v. \<forall>m \<in> set (match_objects objects_tree).
                          \<forall>m' \<in> set (match_objects t').
                          (M(m' := v)) m = M m \<and> (M(m := v)) m' = M m')) \<and>
                    (set (expr_objects objects_tree) \<subseteq> Le \<longrightarrow>
                       (\<forall>(E :: nat \<times> nat \<Rightarrow> string) v. \<forall>e \<in> set (expr_objects objects_tree).
                          \<forall>e' \<in> set (expr_objects t').
                          (E(e' := v)) e = E e \<and> (E(e := v)) e' = E e')) \<and>
                    map (getExpressionContext toy_objects) (expr_objects t') =
                      map (getExpressionContext toy_objects) (expr_objects objects_tree) \<and>
                    (\<forall>(C :: nat \<Rightarrow> string) v. \<forall>i<length (expr_objects objects_tree).
                       (C(getExpressionContext toy_objects (expr_objects t' ! i) := v))
                         (getExpressionContext toy_objects (expr_objects objects_tree ! i)) = v)"
    by (elim conjE)
  from all have orig: "\<forall>h2. length objects_heap \<le> length h2 \<and>
                    (\<forall>y<length objects_heap. h2 ! y = ?h' ! y) \<longrightarrow>
                    is_tree h2 None 3 objects_tree" by (elim conjE)
  note n = nw[rule_format, OF toy_objects_new]
  from n have n1: "set (match_objects t') \<inter> {..<100} = {}" by (elim conjE)
  from n have n2: "set (expr_objects t') \<inter> {e. fst e < 100} = {}" by (elim conjE)
  from n have n3: "map (getExpressionContext toy_objects) (expr_objects t') =
                      map (getExpressionContext toy_objects) (expr_objects objects_tree)"
    by (elim conjE)
  have mt': "match_objects t' = [102]" using mt m by (simp add: toy_objects_def)
  have et': "expr_objects t' = [(100, 3)]"
    using et e by (auto simp: toy_objects_def reparsed_def)
  have sm: "set (match_objects objects_tree) \<subseteq> {..<100}" using m by simp
  have se: "set (expr_objects objects_tree) \<subseteq> {e. fst e < 100}" using e by simp
  from n have "set (match_objects objects_tree) \<subseteq> {..<100} \<longrightarrow>
                       (\<forall>(M :: nat \<Rightarrow> string) v. \<forall>m \<in> set (match_objects objects_tree).
                          \<forall>m' \<in> set (match_objects t').
                          (M(m' := v)) m = M m \<and> (M(m := v)) m' = M m')" by (elim conjE)
  from this[rule_format, OF sm, of 2 102 example_matches "''{a: 2}''"] m mt'
  have um: "(example_matches(102 := ''{a: 2}'')) 2 = example_matches 2"
           "(example_matches(2 := ''{a: 2}'')) 102 = example_matches 102" by simp_all
  from n have "set (expr_objects objects_tree) \<subseteq> {e. fst e < 100} \<longrightarrow>
                       (\<forall>(E :: nat \<times> nat \<Rightarrow> string) v. \<forall>e \<in> set (expr_objects objects_tree).
                          \<forall>e' \<in> set (expr_objects t').
                          (E(e' := v)) e = E e \<and> (E(e := v)) e' = E e')" by (elim conjE)
  from this[rule_format, OF se, of "(1, 3)" "(100, 3)" example_expressions "''$y''"] e et'
  have ue: "(example_expressions((100, 3) := ''$y'')) (1, 3) = example_expressions (1, 3)"
           "(example_expressions((1, 3) := ''$y'')) (100, 3) = example_expressions (100, 3)"
    by simp_all
  from n have "\<forall>(C :: nat \<Rightarrow> string) v. \<forall>i<length (expr_objects objects_tree).
                       (C(getExpressionContext toy_objects (expr_objects t' ! i) := v))
                         (getExpressionContext toy_objects (expr_objects objects_tree ! i)) = v"
    by (elim conjE)
  from this[rule_format, of 0 example_contexts "''fr''"] e et'
  have uc: "(example_contexts(3 := ''fr'')) 3 = ''fr''" by (simp add: toy_objects_def)
  have ct: "map (getExpressionContext toy_objects) (expr_objects t') = [3]"
    using n3 e by (simp add: toy_objects_def)
  have len: "length objects_heap = 4" "length ?h' = 8"
    by (simp_all add: objects_heap_def objects_clone_heap_def)
  have w1: "is_tree (?h'[2 := \<lparr>parent = None, children = [],
                     payload = BooleanConstantASTNode False\<rparr>]) None 4 t'"
    by (rule fr[rule_format]) (simp add: len)
  have w2: "is_tree (?h'[4 := \<lparr>parent = None, children = [],
              payload = BooleanConstantASTNode False\<rparr>]) None 3 objects_tree"
    by (rule orig[rule_format]) (simp add: len)
  have bt': "buffers t' = [7]" using bt b by simp
  have ex: "\<exists>t'. is_tree ?h' None 4 t' \<and> buffers t' = [7] \<and>
         match_objects t' = [102] \<and> expr_objects t' = [(100, 3)] \<and>
         set (match_objects t') \<inter> {..<100} = {} \<and>
         set (expr_objects t') \<inter> {e. fst e < 100} = {} \<and>
         map (getExpressionContext toy_objects) (expr_objects t') = [3] \<and>
         is_tree (?h'[2 := \<lparr>parent = None, children = [],
                     payload = BooleanConstantASTNode False\<rparr>]) None 4 t'"
    apply (rule exI[of _ t'])
    apply (intro conjI)
           apply (rule t')
          apply (rule bt')
         apply (rule mt')
        apply (rule et')
       apply (rule n1)
      apply (rule n2)
     apply (rule ct)
    apply (rule w1)
    done
  show ?thesis
    apply (intro conjI)
            apply (rule objects_is_tree)
           apply (rule objects_depth)
          apply (rule toy_objects_new)
         apply (rule m)
        apply (rule e)
       apply (rule b)
      apply (rule sm)
     apply (rule se)
    apply (rule objects_clone)
   apply (rule um(1))
  apply (rule um(2))
 apply (rule ue(1))
apply (rule ue(2))
apply (rule uc)
apply (rule ex)
apply (rule w2)
    done
qed

text \<open>
  The claim C4 as stated fails at the expression context. The copy constructor of
  \<^verbatim>\<open>ExpressionASTNode\<close> hands the context of the original's expression to the parser;
  with a parser that keeps the context it is given, the expression of the clone and the
  expression of the original hold the same context, and a value written to it through the
  clone is the value read through the original. No \<^verbatim>\<open>BSONObj\<close> is involved.
\<close>

theorem clone_shares_expression_context:
  "is_tree objects_heap None 3 objects_tree \<and>
   clone (Suc (Suc (Suc 0))) toy_objects objects_heap 3 = Some (Inr (objects_clone_heap, 4)) \<and>
   is_tree objects_clone_heap None 4 objects_clone_tree \<and>
   expr_objects objects_tree = [(1, 3)] \<and> expr_objects objects_clone_tree = [(100, 3)] \<and>
   (example_contexts(getExpressionContext toy_objects (100, 3) := ''fr''))
       (getExpressionContext toy_objects (1, 3)) \<noteq>
     example_contexts (getExpressionContext toy_objects (1, 3))"
proof -
  have 1: "is_tree objects_clone_heap None 4 objects_clone_tree"
    by (simp add: objects_clone_heap_def objects_heap_def objects_clone_tree_def)
  have 2: "expr_objects objects_tree = [(1, 3)]" "expr_objects objects_clone_tree = [(100, 3)]"
    by (simp_all add: objects_tree_def objects_clone_tree_def)
  have 3: "(example_contexts(getExpressionContext toy_objects (100, 3) := ''fr''))
       (getExpressionContext toy_objects (1, 3)) \<noteq>
     example_contexts (getExpressionContext toy_objects (1, 3))"
    by (simp add: toy_objects_def example_contexts_def)
  from objects_is_tree objects_clone 1 2 3 show ?thesis by (intro conjI)
qed

section \<open>Parents and children\<close>

lemma distinct_count_list: "distinct xs \<Longrightarrow> x \<in> set xs \<Longrightarrow> count_list xs x = 1"
  by (induction xs) (auto simp: count_list_0_iff)

lemma example_built: "built toy example_heap"
proof -
  let ?h1 = "fst (new_BooleanConstantASTNode ([] :: toy_heap) True)"
  let ?h2 = "fst (new_ProjectionSliceASTNode ?h1 (Some 2) 5)"
  have b2: "built toy ?h2"
    by (intro built_Slice built_BooleanConstant built_empty)
  have c: "new_ProjectionPathASTNode ?h2 (map Some [0, 1]) [''a'', ''b''] =
             (Inr (example_heap, 2) :: string error + _)"
    by (simp add: new_ProjectionPathASTNode_def new_ProjectionSliceASTNode_def
          new_BooleanConstantASTNode_def alloc_def ASTNode_ctor_def example_heap_def)
  show ?thesis
    by (rule built_Path[OF b2 _ _ c])
       (simp_all add: isRoot_def new_ProjectionSliceASTNode_def new_BooleanConstantASTNode_def
          alloc_def)
qed

lemma nested_built: "built toy nested_heap"
proof -
  let ?h1 = "fst (new_ProjectionPathASTNode_empty ([] :: toy_heap))"
  have b1: "built toy ?h1" by (intro built_Path_empty built_empty)
  have c: "new_ProjectionPathASTNode ?h1 (map Some [0]) [''a''] =
             (Inr (nested_heap, 1) :: string error + _)"
    by (simp add: new_ProjectionPathASTNode_def new_ProjectionPathASTNode_empty_def
          alloc_def ASTNode_ctor_def nested_heap_def)
  show ?thesis
    by (rule built_Path[OF b1 _ _ c])
       (simp_all add: isRoot_def new_ProjectionPathASTNode_empty_def alloc_def)
qed

lemma nested_addChild:
  "addChild nested_heap 0 ''x'' (Some 1) = (Inr cycle_heap :: string error + _)"
  by (simp add: addChild_def addChildToInternalVector_def nested_heap_def cycle_heap_def Let_def)

lemma cycle_built: "built toy cycle_heap"
  by (rule built_addChild[OF nested_built _ _ nested_addChild])
     (simp_all add: nested_heap_def isRoot_def)

lemma example_moved:
  "make_unique_move 0 toy example_heap 2 = Some (Inr (moved_heap, 3))"
  by (simp add: make_unique_move_def ASTNode_move_ctor_def alloc_def example_heap_def
        moved_heap_def Let_def)

text \<open>
  C9, for the constructors, \<^verbatim>\<open>addChild\<close> and \<^verbatim>\<open>clone\<close>. In every store they build: a
  node whose parent is \<open>p\<close> is listed exactly once in the children of \<open>p\<close>; every node
  listed in the children of \<open>p\<close> is listed once and has \<open>p\<close> as its parent; and a node for
  which \<^verbatim>\<open>isRoot()\<close> holds is the root of a well-formed, finite tree, in which it is the
  only node without a parent and which shares no node with the tree of another root. The
  property holds of the empty store and each of these operations keeps it, which is what
  membership in \<open>built\<close> unfolds to. Not every node lies in the tree of a root, and move
  construction is not one of the operations: see the two stores after the theorem.
\<close>

theorem built_parent_child_consistent:
  fixes X :: "('m, 'e, 'c, 's, 'v, 'x) externals"
  assumes "built X h"
  shows "(\<forall>n<length h. \<forall>p. parent_of h n = Some p \<longrightarrow>
            p < length h \<and> count_list (children (h ! p)) n = 1) \<and>
         (\<forall>p<length h. \<forall>n \<in> set (children (h ! p)).
            n < length h \<and> parent_of h n = Some p \<and> count_list (children (h ! p)) n = 1) \<and>
         (\<forall>r<length h. isRoot h r \<longrightarrow>
            (\<exists>t. is_tree h None r t) \<and>
            (\<forall>n \<in> subtree h r. n < length h \<and> (isRoot h n \<longleftrightarrow> n = r)) \<and>
            (\<forall>r'<length h. isRoot h r' \<and> subtree h r \<inter> subtree h r' \<noteq> {} \<longrightarrow> r' = r))"
proof -
  from built_consistent[OF assms] have wf: "consistent h" .
  have 1: "\<forall>n<length h. \<forall>p. parent_of h n = Some p \<longrightarrow>
            p < length h \<and> count_list (children (h ! p)) n = 1"
  proof (intro allI impI)
    fix n p assume n: "n < length h" and p: "parent_of h n = Some p"
    then have "parent (h ! n) = Some p" by (simp add: parent_of_def)
    from consistentD(3)[OF wf n this] have pl: "p < length h" and m: "n \<in> set (children (h ! p))"
      by simp_all
    from consistentD(1)[OF wf pl] m show "p < length h \<and> count_list (children (h ! p)) n = 1"
      using pl by (simp add: distinct_count_list)
  qed
  have 2: "\<forall>p<length h. \<forall>n \<in> set (children (h ! p)).
            n < length h \<and> parent_of h n = Some p \<and> count_list (children (h ! p)) n = 1"
  proof (intro allI impI ballI)
    fix p n assume p: "p < length h" and n: "n \<in> set (children (h ! p))"
    from consistentD(2)[OF wf p n] consistentD(1)[OF wf p] n
    show "n < length h \<and> parent_of h n = Some p \<and> count_list (children (h ! p)) n = 1"
      by (simp add: parent_of_def distinct_count_list)
  qed
  have 3: "\<forall>r<length h. isRoot h r \<longrightarrow>
            (\<exists>t. is_tree h None r t) \<and>
            (\<forall>n \<in> subtree h r. n < length h \<and> (isRoot h n \<longleftrightarrow> n = r)) \<and>
            (\<forall>r'<length h. isRoot h r' \<and> subtree h r \<inter> subtree h r' \<noteq> {} \<longrightarrow> r' = r)"
  proof (intro allI impI)
    fix r assume r: "r < length h" and root: "isRoot h r"
    then have "parent (h ! r) = None" by (simp add: isRoot_def)
    from consistentD(4)[OF wf r this] obtain t where t: "is_tree h None r t" by blast
    have a: "n < length h \<and> (isRoot h n \<longleftrightarrow> n = r)" if n: "n \<in> subtree h r" for n
    proof (cases "n = r")
      case True
      with r root show ?thesis by simp
    next
      case False
      from subtree_parent[OF t n False] subtree_bound[OF t n] False show ?thesis
        by (auto simp: isRoot_def)
    qed
    have b: "r' = r" if r': "r' < length h" and c: "isRoot h r' \<and> subtree h r \<inter> subtree h r' \<noteq> {}" for r'
    proof -
      from c have "parent (h ! r') = None" by (simp add: isRoot_def)
      from consistentD(4)[OF wf r' this] obtain t' where t': "is_tree h None r' t'" by blast
      from c obtain x where "x \<in> subtree h r" "x \<in> subtree h r'" by blast
      from roots_disjoint[OF t t' this] show ?thesis by simp
    qed
    from t a b show "(\<exists>t. is_tree h None r t) \<and>
            (\<forall>n \<in> subtree h r. n < length h \<and> (isRoot h n \<longleftrightarrow> n = r)) \<and>
            (\<forall>r'<length h. isRoot h r' \<and> subtree h r \<inter> subtree h r' \<noteq> {} \<longrightarrow> r' = r)" by blast
  qed
  from 1 2 3 show ?thesis by (intro conjI)
qed

theorem built_parent_child_consistent_witness:
  "built toy example_heap \<and>
   parent_of example_heap 0 = Some 2 \<and> count_list (children (example_heap ! 2)) 0 = 1 \<and>
   parent_of example_heap 1 = Some 2 \<and> count_list (children (example_heap ! 2)) 1 = 1 \<and>
   isRoot example_heap 2 \<and> (\<exists>t. is_tree example_heap None 2 t) \<and>
   0 \<in> subtree example_heap 2 \<and> \<not> isRoot example_heap 0 \<and>
   1 \<in> subtree example_heap 2 \<and> \<not> isRoot example_heap 1 \<and>
   built toy cycle_heap \<and>
   parent_of cycle_heap 0 = Some 1 \<and> count_list (children (cycle_heap ! 1)) 0 = 1 \<and>
   parent_of cycle_heap 1 = Some 0 \<and> count_list (children (cycle_heap ! 0)) 1 = 1"
proof -
  note t = built_parent_child_consistent[OF example_built]
  note u = built_parent_child_consistent[OF cycle_built]
  have l: "2 < length example_heap" and c: "children (example_heap ! 2) = [0, 1]"
    and r: "isRoot example_heap 2"
    by (simp_all add: example_heap_def isRoot_def)
  have m0: "0 \<in> set (children (example_heap ! 2))" and m1: "1 \<in> set (children (example_heap ! 2))"
    using c by simp_all
  have s0: "0 \<in> subtree example_heap 2" by (rule subtree_child[OF subtree_root l m0])
  have s1: "1 \<in> subtree example_heap 2" by (rule subtree_child[OF subtree_root l m1])
  from t have t2: "\<forall>p<length example_heap. \<forall>n \<in> set (children (example_heap ! p)).
            n < length example_heap \<and> parent_of example_heap n = Some p \<and>
            count_list (children (example_heap ! p)) n = 1" by (elim conjE)
  from t have t3: "\<forall>r<length example_heap. isRoot example_heap r \<longrightarrow>
            (\<exists>t. is_tree example_heap None r t) \<and>
            (\<forall>n \<in> subtree example_heap r. n < length example_heap \<and>
                 (isRoot example_heap n \<longleftrightarrow> n = r)) \<and>
            (\<forall>r'<length example_heap. isRoot example_heap r' \<and>
                 subtree example_heap r \<inter> subtree example_heap r' \<noteq> {} \<longrightarrow> r' = r)"
    by (elim conjE)
  from t2[rule_format, OF l m0]
  have p0: "parent_of example_heap 0 = Some 2" "count_list (children (example_heap ! 2)) 0 = 1"
    by simp_all
  from t2[rule_format, OF l m1]
  have p1: "parent_of example_heap 1 = Some 2" "count_list (children (example_heap ! 2)) 1 = 1"
    by simp_all
  from t3[rule_format, OF l r] have e: "\<exists>t. is_tree example_heap None 2 t"
    and u': "\<forall>n \<in> subtree example_heap 2. n < length example_heap \<and>
                 (isRoot example_heap n \<longleftrightarrow> n = 2)" by simp_all
  from u'[rule_format, OF s0] have n0: "\<not> isRoot example_heap 0" by simp
  from u'[rule_format, OF s1] have n1: "\<not> isRoot example_heap 1" by simp
  from u have u1: "\<forall>n<length cycle_heap. \<forall>p. parent_of cycle_heap n = Some p \<longrightarrow>
            p < length cycle_heap \<and> count_list (children (cycle_heap ! p)) n = 1" by (elim conjE)
  have cl: "0 < length cycle_heap" "1 < length cycle_heap"
    and cp: "parent_of cycle_heap 0 = Some 1" "parent_of cycle_heap 1 = Some 0"
    by (simp_all add: cycle_heap_def parent_of_def)
  from u1[rule_format, OF cl(1) cp(1)] have c0: "count_list (children (cycle_heap ! 1)) 0 = 1" by simp
  from u1[rule_format, OF cl(2) cp(2)] have c1: "count_list (children (cycle_heap ! 0)) 1 = 1" by simp
  show ?thesis
    apply (intro conjI)
                   apply (rule example_built)
                  apply (rule p0(1))
                 apply (rule p0(2))
                apply (rule p1(1))
               apply (rule p1(2))
              apply (rule r)
             apply (rule e)
            apply (rule s0)
           apply (rule n0)
          apply (rule s1)
         apply (rule n1)
        apply (rule cycle_built)
       apply (rule cp(1))
      apply (rule c0)
     apply (rule cp(2))
    apply (rule c1)
    done
qed

text \<open>
  The claim C9 as stated fails at two operations. \<^verbatim>\<open>addChild\<close> does not look at the node
  it is called on: called on the inner path node of \<open>nested_heap\<close> with the pointer that
  owns the outer one, it returns, and in the store it leaves every node has a parent:
  the two nodes own each other and there is no root. The move constructor copies
  \<^verbatim>\<open>_parent\<close> and takes \<^verbatim>\<open>_children\<close> without visiting the children: the node
  move-constructed from the root of \<open>example_heap\<close> lists the two children, which still
  name the node moved from as their parent, and that node lists nothing.
\<close>

theorem cycle_and_move_counterexample:
  "built toy nested_heap \<and> isRoot nested_heap 1 \<and>
   addChild nested_heap 0 ''x'' (Some 1) = (Inr cycle_heap :: string error + toy_heap) \<and>
   built toy cycle_heap \<and> length cycle_heap = 2 \<and>
   \<not> isRoot cycle_heap 0 \<and> \<not> isRoot cycle_heap 1 \<and>
   built toy example_heap \<and>
   make_unique_move 0 toy example_heap 2 = Some (Inr (moved_heap, 3)) \<and>
   children (moved_heap ! 3) = [0, 1] \<and> parent_of moved_heap 0 = Some 2 \<and>
   children (moved_heap ! 2) = []"
proof -
  have 1: "isRoot nested_heap 1" by (simp add: nested_heap_def isRoot_def)
  have 2: "length cycle_heap = 2" "\<not> isRoot cycle_heap 0" "\<not> isRoot cycle_heap 1"
    by (simp_all add: cycle_heap_def isRoot_def)
  have 3: "children (moved_heap ! 3) = [0, 1]" "parent_of moved_heap 0 = Some 2"
    "children (moved_heap ! 2) = []"
    by (simp_all add: moved_heap_def parent_of_def)
  from nested_built 1 nested_addChild cycle_built 2 example_built example_moved 3
  show ?thesis by (intro conjI)
qed

section \<open>Path nodes\<close>

lemma getChild_loop_None:
  "\<forall>j. i \<le> j \<and> j < length fieldNames \<longrightarrow> fieldNames ! j \<noteq> fieldName \<Longrightarrow>
   getChild_loop fieldNames cs fieldName i = None"
proof (induction fieldNames cs fieldName i rule: getChild_loop.induct)
  case (1 fieldNames cs fieldName i)
  show ?case
  proof (cases "i < length fieldNames")
    case True
    with "1.prems" have ne: "fieldNames ! i \<noteq> fieldName" by simp
    from "1.IH"[OF True ne] "1.prems" have "getChild_loop fieldNames cs fieldName (Suc i) = None" by simp
    with True ne show ?thesis by (subst getChild_loop.simps) simp
  next
    case False
    then show ?thesis by (subst getChild_loop.simps) simp
  qed
qed

lemma getChild_loop_Some:
  "i \<le> k \<Longrightarrow> k < length fieldNames \<Longrightarrow> fieldNames ! k = fieldName \<Longrightarrow>
   \<forall>j. i \<le> j \<and> j < k \<longrightarrow> fieldNames ! j \<noteq> fieldName \<Longrightarrow>
   getChild_loop fieldNames cs fieldName i = Some (cs ! k)"
proof (induction fieldNames cs fieldName i rule: getChild_loop.induct)
  case (1 fieldNames cs fieldName i)
  from "1.prems" have il: "i < length fieldNames" by simp
  show ?case
  proof (cases "i = k")
    case True
    with "1.prems" il show ?thesis by (subst getChild_loop.simps) simp
  next
    case False
    with "1.prems" have ne: "fieldNames ! i \<noteq> fieldName" and lt: "Suc i \<le> k" by auto
    from "1.IH"[OF il ne lt "1.prems"(2,3)] "1.prems"(4)
    have "getChild_loop fieldNames cs fieldName (Suc i) = Some (cs ! k)" by simp
    with il ne show ?thesis by (subst getChild_loop.simps) simp
  qed
qed

lemma set_parents_length:
  "set_parents h this cs = Inr h' \<Longrightarrow> length h' = length h"
  by (induction h this cs rule: set_parents.induct) (auto split: if_splits)

lemma new_ProjectionPathASTNode_mismatch:
  assumes "length cs \<noteq> length fieldNames"
  shows "\<exists>e. new_ProjectionPathASTNode h cs fieldNames = (Inl e :: 'x error + _)"
proof (cases "set_parents (fst (alloc h (ProjectionPathASTNode fieldNames))) (length h) cs
               :: 'x error + _")
  case (Inl e)
  then show ?thesis
    by (simp add: new_ProjectionPathASTNode_def ASTNode_ctor_def alloc_def)
next
  case (Inr h1)
  from set_parents_length[OF Inr] have "length h < length h1" by (simp add: alloc_def)
  with Inr assms show ?thesis
    by (simp add: new_ProjectionPathASTNode_def ASTNode_ctor_def alloc_def)
qed

lemma new_ProjectionPathASTNode_invariant:
  assumes "length cs \<noteq> length fieldNames" "\<forall>c \<in> set cs. \<exists>a. c = Some a \<and> a < length h"
  shows "new_ProjectionPathASTNode h cs fieldNames = (Inl InvariantFailure :: 'x error + _)"
proof -
  let ?h0 = "h @ [\<lparr>parent = None, children = [], payload = ProjectionPathASTNode fieldNames\<rparr>]"
  have cs: "cs = map Some (map the cs)" using assms(2) by (induction cs) auto
  have "\<forall>c \<in> set (map the cs). c < length ?h0" using assms(2) by fastforce
  from set_parents_Some[OF this, of "length h"] obtain h1 where
    h1: "set_parents ?h0 (length h) (map Some (map the cs)) = (Inr h1 :: 'x error + _)"
    "length h1 = length ?h0" by blast
  from h1(1) cs have "set_parents ?h0 (length h) cs = (Inr h1 :: 'x error + _)" by simp
  with h1(2) assms(1) show ?thesis
    by (simp add: new_ProjectionPathASTNode_def ASTNode_ctor_def alloc_def)
qed

text \<open>
  C1. A \<^verbatim>\<open>ProjectionPathASTNode\<close> is not constructed from a vector of children and a
  vector of field names of different sizes: the constructor fails, at the
  \<^verbatim>\<open>invariant\<close> when every child pointer is valid. On every path node of a store built
  by the operations, \<^verbatim>\<open>getChild(name)\<close> returns the null pointer when no field name
  is \<open>name\<close>, and otherwise the child at the first index whose field name is \<open>name\<close>,
  whether or not a later field name is \<open>name\<close> too.
\<close>

theorem ProjectionPathASTNode_getChild:
  fixes X :: "('m, 'e, 'c, 's, 'v, 'x) externals"
  shows
  "(length cs \<noteq> length fieldNames \<longrightarrow>
      (\<exists>e. new_ProjectionPathASTNode h cs fieldNames = (Inl e :: 'x error + _)) \<and>
      ((\<forall>c \<in> set cs. \<exists>a. c = Some a \<and> a < length h) \<longrightarrow>
         new_ProjectionPathASTNode h cs fieldNames = (Inl InvariantFailure :: 'x error + _))) \<and>
   (built X h \<longrightarrow> this < length h \<longrightarrow> payload (h ! this) = ProjectionPathASTNode names \<longrightarrow>
      (name \<notin> set names \<longrightarrow> getChild h this name = (Inr None :: 'x error + _)) \<and>
      (\<forall>i<length names. names ! i = name \<and> (\<forall>j<i. names ! j \<noteq> name) \<longrightarrow>
         getChild h this name = (Inr (Some (children (h ! this) ! i)) :: 'x error + _)))"
proof -
  have 2: "(name \<notin> set names \<longrightarrow> getChild h this name = (Inr None :: 'x error + _)) \<and>
      (\<forall>i<length names. names ! i = name \<and> (\<forall>j<i. names ! j \<noteq> name) \<longrightarrow>
         getChild h this name = (Inr (Some (children (h ! this) ! i)) :: 'x error + _))"
    if b: "built X h" and t: "this < length h" and k: "payload (h ! this) = ProjectionPathASTNode names"
  proof -
    from consistentD(5)[OF built_consistent[OF b] t] have "class_inv h this" .
    with k have len: "length names = length (children (h ! this))" by (simp add: class_inv_def)
    have g: "getChild h this name = (Inr (getChild_loop names (children (h ! this)) name 0) :: 'x error + _)"
      using t k len by (simp add: getChild_def)
    have a: "getChild h this name = (Inr None :: 'x error + _)" if "name \<notin> set names"
    proof -
      from that have "\<forall>j. 0 \<le> j \<and> j < length names \<longrightarrow> names ! j \<noteq> name" by auto
      from getChild_loop_None[OF this] g show ?thesis by simp
    qed
    have b: "getChild h this name = (Inr (Some (children (h ! this) ! i)) :: 'x error + _)"
      if "i < length names" "names ! i = name \<and> (\<forall>j<i. names ! j \<noteq> name)" for i
      using that g getChild_loop_Some[of 0 i names name "children (h ! this)"] by auto
    from a b show ?thesis by blast
  qed
  show ?thesis
    using new_ProjectionPathASTNode_mismatch[of cs fieldNames h]
      new_ProjectionPathASTNode_invariant[of cs fieldNames h] 2
    by blast
qed

lemma duplicate_built: "built toy duplicate_heap"
proof -
  let ?h1 = "fst (new_BooleanConstantASTNode ([] :: toy_heap) True)"
  let ?h2 = "fst (new_BooleanConstantASTNode ?h1 False)"
  have b2: "built toy ?h2"
    by (intro built_BooleanConstant built_empty)
  have c: "new_ProjectionPathASTNode ?h2 (map Some [0, 1]) [''a'', ''a''] =
             (Inr (duplicate_heap, 2) :: string error + _)"
    by (simp add: new_ProjectionPathASTNode_def new_BooleanConstantASTNode_def alloc_def
          ASTNode_ctor_def duplicate_heap_def)
  show ?thesis
    by (rule built_Path[OF b2 _ _ c])
       (simp_all add: isRoot_def new_BooleanConstantASTNode_def alloc_def)
qed

theorem ProjectionPathASTNode_getChild_witness:
  "new_ProjectionPathASTNode example_heap [Some 2] [''a'', ''b''] = (Inl InvariantFailure :: string error + _) \<and>
   built toy example_heap \<and>
   getChild example_heap 2 ''a'' = (Inr (Some 0) :: string error + _) \<and>
   getChild example_heap 2 ''b'' = (Inr (Some 1) :: string error + _) \<and>
   getChild example_heap 2 ''c'' = (Inr None :: string error + _) \<and>
   built toy duplicate_heap \<and>
   getChild duplicate_heap 2 ''a'' = (Inr (Some 0) :: string error + _)"
proof -
  have k: "payload (example_heap ! 2) = ProjectionPathASTNode [''a'', ''b'']"
    and l: "2 < length example_heap" and c: "children (example_heap ! 2) = [0, 1]"
    by (simp_all add: example_heap_def)
  note t = ProjectionPathASTNode_getChild[where X = toy and h = example_heap and this = 2
      and names = "[''a'', ''b'']" and cs = "[Some 2]" and fieldNames = "[''a'', ''b'']"]
  have 1: "new_ProjectionPathASTNode example_heap [Some 2] [''a'', ''b''] = (Inl InvariantFailure :: string error + _)"
    using t[of "''a''"] l by simp
  have a: "getChild example_heap 2 ''a'' = (Inr (Some 0) :: string error + _)"
    using t[of "''a''"] example_built k l c by (auto simp: All_less_Suc2 numeral_2_eq_2)
  have b: "getChild example_heap 2 ''b'' = (Inr (Some 1) :: string error + _)"
    using t[of "''b''"] example_built k l c by (auto simp: All_less_Suc2 numeral_2_eq_2)
  have n: "getChild example_heap 2 ''c'' = (Inr None :: string error + _)"
    using t[of "''c''"] example_built k l by simp
  have dk: "payload (duplicate_heap ! 2) = ProjectionPathASTNode [''a'', ''a'']"
    and dl: "2 < length duplicate_heap" and dc: "children (duplicate_heap ! 2) = [0, 1]"
    by (simp_all add: duplicate_heap_def)
  have d: "getChild duplicate_heap 2 ''a'' = (Inr (Some 0) :: string error + _)"
    using ProjectionPathASTNode_getChild[where X = toy and h = duplicate_heap and this = 2
      and names = "[''a'', ''a'']" and name = "''a''" and cs = "[]" and fieldNames = "[]"]
      duplicate_built dk dl dc
    by (auto simp: All_less_Suc2 numeral_2_eq_2)
  from 1 example_built a b n duplicate_built d show ?thesis by (intro conjI)
qed

section \<open>Positional and element match nodes\<close>

lemma new_Positional_Some:
  assumes "c < length h"
  shows "new_ProjectionPositionalASTNode h (Some c) =
           (Inr ((h[c := (h ! c)\<lparr>parent := Some (length h)\<rparr>]) @
                   [\<lparr>parent = None, children = [c], payload = ProjectionPositionalASTNode\<rparr>],
                 length h) :: 'x error + _)"
  using assms
  by (simp add: new_ProjectionPositionalASTNode_def alloc_def addChildToInternalVector_def
        Let_def list_update_append nth_append)

lemma new_ElemMatch_Some:
  assumes "c < length h"
  shows "new_ProjectionElemMatchASTNode h (Some c) =
           (Inr ((h[c := (h ! c)\<lparr>parent := Some (length h)\<rparr>]) @
                   [\<lparr>parent = None, children = [c], payload = ProjectionElemMatchASTNode\<rparr>],
                 length h) :: 'x error + _)"
  using assms
  by (simp add: new_ProjectionElemMatchASTNode_def alloc_def addChildToInternalVector_def
        Let_def list_update_append nth_append)

text \<open>
  C2. \<^verbatim>\<open>ProjectionPositionalASTNode\<close> and \<^verbatim>\<open>ProjectionElemMatchASTNode\<close> take one
  \<^verbatim>\<open>std::unique_ptr<MatchExpressionASTNode>\<close>. Given the null pointer the constructor
  aborts at \<^verbatim>\<open>invariant(child)\<close>; given a pointer to a match expression node it returns
  a node whose children are that node alone. In every store built by the operations, a
  node of either class (constructed or cloned, and whatever was added elsewhere since)
  has exactly one child, which is a match expression node.
\<close>

theorem Positional_ElemMatch_child:
  fixes X :: "('m, 'e, 'c, 's, 'v, 'x) externals"
  shows
  "new_ProjectionPositionalASTNode h None = (Inl InvariantFailure :: 'x error + _) \<and>
   new_ProjectionElemMatchASTNode h None = (Inl InvariantFailure :: 'x error + _) \<and>
   (c < length h \<longrightarrow> payload (h ! c) = MatchExpressionASTNode bson me \<longrightarrow>
      (\<exists>h' a. new_ProjectionPositionalASTNode h (Some c) = (Inr (h', a) :: 'x error + _) \<and>
               payload (h' ! a) = ProjectionPositionalASTNode \<and> children (h' ! a) = [c] \<and>
               payload (h' ! c) = MatchExpressionASTNode bson me \<and> parent_of h' c = Some a) \<and>
      (\<exists>h' a. new_ProjectionElemMatchASTNode h (Some c) = (Inr (h', a) :: 'x error + _) \<and>
               payload (h' ! a) = ProjectionElemMatchASTNode \<and> children (h' ! a) = [c] \<and>
               payload (h' ! c) = MatchExpressionASTNode bson me \<and> parent_of h' c = Some a)) \<and>
   (built X g \<longrightarrow> n < length g \<longrightarrow>
      payload (g ! n) = ProjectionPositionalASTNode \<or> payload (g ! n) = ProjectionElemMatchASTNode \<longrightarrow>
      (\<exists>c bson me. children (g ! n) = [c] \<and> c < length g \<and>
                    payload (g ! c) = MatchExpressionASTNode bson me))"
proof -
  have 1: "new_ProjectionPositionalASTNode h None = (Inl InvariantFailure :: 'x error + _)"
    by (simp add: new_ProjectionPositionalASTNode_def alloc_def)
  have 2: "new_ProjectionElemMatchASTNode h None = (Inl InvariantFailure :: 'x error + _)"
    by (simp add: new_ProjectionElemMatchASTNode_def alloc_def)
  have 3: "(\<exists>h' a. new_ProjectionPositionalASTNode h (Some c) = (Inr (h', a) :: 'x error + _) \<and>
               payload (h' ! a) = ProjectionPositionalASTNode \<and> children (h' ! a) = [c] \<and>
               payload (h' ! c) = MatchExpressionASTNode bson me \<and> parent_of h' c = Some a) \<and>
      (\<exists>h' a. new_ProjectionElemMatchASTNode h (Some c) = (Inr (h', a) :: 'x error + _) \<and>
               payload (h' ! a) = ProjectionElemMatchASTNode \<and> children (h' ! a) = [c] \<and>
               payload (h' ! c) = MatchExpressionASTNode bson me \<and> parent_of h' c = Some a)"
    if "c < length h" "payload (h ! c) = MatchExpressionASTNode bson me"
    using that
    by (simp add: new_Positional_Some new_ElemMatch_Some nth_append parent_of_def)
  have 4: "\<exists>c bson me. children (g ! n) = [c] \<and> c < length g \<and>
                    payload (g ! c) = MatchExpressionASTNode bson me"
    if b: "built X g" and n: "n < length g"
      and k: "payload (g ! n) = ProjectionPositionalASTNode \<or> payload (g ! n) = ProjectionElemMatchASTNode"
  proof -
    from consistentD(5)[OF built_consistent[OF b] n] have "class_inv g n" .
    with k show ?thesis by (auto simp: class_inv_def)
  qed
  from 1 2 3 4 show ?thesis by blast
qed

lemma positional_built: "built toy positional_heap"
proof -
  let ?h1 = "fst (new_MatchExpressionASTNode ([] :: toy_heap) 7 (Some ''{a: {$gt: 1}}''))"
  have b1: "built toy ?h1"
    by (intro built_MatchExpression built_empty)
  have c: "new_ProjectionPositionalASTNode ?h1 (Some 0) =
             (Inr (positional_heap, 1) :: string error + _)"
    by (simp add: new_ProjectionPositionalASTNode_def new_MatchExpressionASTNode_def alloc_def
          addChildToInternalVector_def positional_heap_def Let_def)
  show ?thesis
    by (rule built_Positional[OF b1 _ _ _ c])
       (simp_all add: isRoot_def new_MatchExpressionASTNode_def alloc_def)
qed

theorem Positional_ElemMatch_child_witness:
  "new_ProjectionPositionalASTNode
     ([\<lparr>parent = None, children = [], payload = MatchExpressionASTNode 7 (Some ''{a: {$gt: 1}}'')\<rparr>]
        :: toy_heap) (Some 0) = (Inr (positional_heap, 1) :: string error + _) \<and>
   built toy positional_heap \<and>
   (\<exists>c bson me. children (positional_heap ! 1) = [c] \<and> c < length positional_heap \<and>
                 payload (positional_heap ! c) = MatchExpressionASTNode bson me)"
proof -
  note t = Positional_ElemMatch_child[where X = toy and g = positional_heap and n = 1
      and h = "[\<lparr>parent = None, children = [], payload = MatchExpressionASTNode 7 (Some ''{a: {$gt: 1}}'')\<rparr>]"
      and c = 0 and bson = 7 and me = "Some ''{a: {$gt: 1}}''"]
  have 1: "new_ProjectionPositionalASTNode
     ([\<lparr>parent = None, children = [], payload = MatchExpressionASTNode 7 (Some ''{a: {$gt: 1}}'')\<rparr>]
        :: toy_heap) (Some 0) = (Inr (positional_heap, 1) :: string error + _)"
    by (simp add: new_ProjectionPositionalASTNode_def alloc_def
          addChildToInternalVector_def positional_heap_def Let_def)
  have l: "1 < length positional_heap"
    and k: "payload (positional_heap ! 1) = ProjectionPositionalASTNode"
    by (simp_all add: positional_heap_def)
  have 2: "\<exists>c bson me. children (positional_heap ! 1) = [c] \<and> c < length positional_heap \<and>
                 payload (positional_heap ! c) = MatchExpressionASTNode bson me"
    using t positional_built l k by blast
  from 1 positional_built 2 show ?thesis by (intro conjI)
qed

section \<open>Cloning a match expression node\<close>

lemma shallow_clone_id:
  "shallow_clone p = p"
  by (induction p) (simp_all add: map_idI)

lemma observe_same_bytes:
  "refers_to b p \<Longrightarrow> map_option bytes (\<sigma>1 b) = map_option bytes (\<sigma>2 b) \<Longrightarrow>
   observe \<sigma>1 p = observe \<sigma>2 p"
  "list_all (refers_to b) ps \<Longrightarrow> map_option bytes (\<sigma>1 b) = map_option bytes (\<sigma>2 b) \<Longrightarrow>
   observe_all \<sigma>1 ps = observe_all \<sigma>2 ps"
proof (induction \<sigma>1 p and \<sigma>1 ps rule: observe_observe_all.induct)
  case (1 \<sigma> b0 off len)
  then show ?case by (cases "\<sigma> b0"; cases "\<sigma>2 b0") auto
qed (auto split: option.splits)

lemma observe_retarget:
  "refers_to b p \<Longrightarrow> map_option bytes (\<sigma>1 b) = map_option bytes (\<sigma>2 b') \<Longrightarrow>
   observe \<sigma>1 p = observe \<sigma>2 (retarget b' p)"
  "list_all (refers_to b) ps \<Longrightarrow> map_option bytes (\<sigma>1 b) = map_option bytes (\<sigma>2 b') \<Longrightarrow>
   observe_all \<sigma>1 ps = observe_all \<sigma>2 (map (retarget b') ps)"
proof (induction \<sigma>1 p and \<sigma>1 ps rule: observe_observe_all.induct)
  case (1 \<sigma> b0 off len)
  then show ?case by (cases "\<sigma> b0"; cases "\<sigma>2 b'") auto
qed (auto split: option.splits)



lemma release_funpow:
  assumes "\<sigma> b = Some buf" "n < holders buf"
  shows "((\<lambda>s. release s b) ^^ n) \<sigma> b = Some (buf\<lparr>holders := holders buf - n\<rparr>)"
  using assms
proof (induction n)
  case 0
  then show ?case by simp
next
  case (Suc n)
  then have "((\<lambda>s. release s b) ^^ n) \<sigma> b = Some (buf\<lparr>holders := holders buf - n\<rparr>)" by simp
  with Suc.prems show ?case by (simp add: release_def)
qed

lemma release_funpow_other:
  "b' \<noteq> b \<Longrightarrow> ((\<lambda>s. release s b) ^^ n) \<sigma> b' = \<sigma> b'"
  by (induction n) (auto simp: release_def split: option.splits)

text \<open>
  C5. The clone of a \<^verbatim>\<open>MatchExpressionASTNode\<close> holds the handle of the original, on
  the same bytes with one more holder, and the shallow clone of its predicate tree, whose
  references are into that buffer. With the buffer and the predicate tree as the spec
  describes them, an observer reads from the clone what it read from the original, and
  what it would read from a deep clone (the bytes copied, the references retargeted),
  after any number \<open>n\<close> of the other holders, the original among them, have let go of the
  buffer.
\<close>

theorem MatchExpression_clone_as_deep_clone:
  assumes "\<sigma> b = Some buf" and "0 < holders buf"
    and "refers_to b p"
    and "\<sigma> b' = None"
    and "shallowClone X = shallow_clone"
    and "deep_clone \<sigma> b' b p = (\<sigma>d, bd, pd)"
    and "n \<le> holders buf"
    and "a < length h" and "payload (h ! a) = MatchExpressionASTNode b (Some p)"
    and "children (h ! a) = []"
  shows "clone (Suc fuel) X h a =
           Some (Inr (alloc h (MatchExpressionASTNode b (Some (shallow_clone p))))) \<and>
         clone_MatchExpression X \<sigma> (MatchExpressionASTNode b (Some p)) =
           Inr (retain \<sigma> b, MatchExpressionASTNode b (Some (shallow_clone p))) \<and>
         retain \<sigma> b = \<sigma>(b \<mapsto> buf\<lparr>holders := Suc (holders buf)\<rparr>) \<and>
         refers_to b (shallow_clone p) \<and>
         observe (retain \<sigma> b) (shallow_clone p) = observe \<sigma> p \<and>
         observe \<sigma>d pd = observe \<sigma> p \<and>
         observe (((\<lambda>s. release s b) ^^ n) (retain \<sigma> b)) (shallow_clone p) = observe \<sigma> p \<and>
         observe (((\<lambda>s. release s b) ^^ n) \<sigma>d) pd = observe \<sigma> p"
proof -
  have ne: "b' \<noteq> b" using assms(1,4) by auto
  have r: "retain \<sigma> b = \<sigma>(b \<mapsto> buf\<lparr>holders := Suc (holders buf)\<rparr>)"
    using assms(1) by (simp add: retain_def)
  have d: "\<sigma>d = \<sigma>(b' \<mapsto> \<lparr>bytes = bytes buf, holders = 1\<rparr>)" "pd = retarget b' p"
    using assms(1,6) by (auto simp: deep_clone_def)
  have 1: "clone_MatchExpression X \<sigma> (MatchExpressionASTNode b (Some p)) =
           Inr (retain \<sigma> b, MatchExpressionASTNode b (Some (shallow_clone p)))"
    using assms(5) by (simp add: clone_MatchExpression_def copy_members_def)
  have 0: "clone (Suc fuel) X h a =
           Some (Inr (alloc h (MatchExpressionASTNode b (Some (shallow_clone p)))))"
    using assms(5,9) by (simp add: clone_leaf[OF assms(8,10)] copy_members_def)
  have 3: "refers_to b (shallow_clone p)" using assms(3) by (simp add: shallow_clone_id)
  have 4: "observe (retain \<sigma> b) (shallow_clone p) = observe \<sigma> p"
    unfolding shallow_clone_id
    by (rule observe_same_bytes(1)[OF assms(3)]) (simp add: r assms(1))
  have 5: "observe \<sigma>d pd = observe \<sigma> p"
    unfolding d(2)
    by (rule observe_retarget(1)[OF assms(3), symmetric]) (simp add: d(1) assms(1))
  have "n < holders (buf\<lparr>holders := Suc (holders buf)\<rparr>)" using assms(7) by simp
  from release_funpow[of "retain \<sigma> b" b "buf\<lparr>holders := Suc (holders buf)\<rparr>" n, OF _ this]
  have "((\<lambda>s. release s b) ^^ n) (retain \<sigma> b) b = Some (buf\<lparr>holders := Suc (holders buf) - n\<rparr>)"
    by (simp add: r)
  then have 6: "observe (((\<lambda>s. release s b) ^^ n) (retain \<sigma> b)) (shallow_clone p) = observe \<sigma> p"
    unfolding shallow_clone_id
    by (intro observe_same_bytes(1)[OF assms(3)]) (simp add: assms(1))
  have "((\<lambda>s. release s b) ^^ n) \<sigma>d b' = \<sigma>d b'" using ne by (rule release_funpow_other)
  then have 7: "observe (((\<lambda>s. release s b) ^^ n) \<sigma>d) pd = observe \<sigma> p"
    unfolding d(2)
    by (intro observe_retarget(1)[OF assms(3), symmetric]) (simp add: d(1) assms(1))
  from 0 1 r 3 4 5 6 7 show ?thesis by (intro conjI)
qed

theorem MatchExpression_clone_as_deep_clone_witness:
  "clone (Suc 0) toy_match match_heap 0 =
     Some (Inr (match_heap @
       [\<lparr>parent = None, children = [],
          payload = MatchExpressionASTNode 7 (Some example_predicate)\<rparr>], 1)) \<and>
   clone_MatchExpression toy_match example_store (MatchExpressionASTNode 7 (Some example_predicate)) =
     Inr (Map.empty(7 \<mapsto> \<lparr>bytes = [1, 2, 3, 4], holders = 2\<rparr>),
          MatchExpressionASTNode 7 (Some example_predicate)) \<and>
   observe example_store example_predicate = Some (Applied ''$gt'' [Bytes [1], Bytes [2, 3, 4]]) \<and>
   observe (release (retain example_store 7) 7) (shallow_clone example_predicate) =
     Some (Applied ''$gt'' [Bytes [1], Bytes [2, 3, 4]]) \<and>
   observe (release (fst (deep_clone example_store 8 7 example_predicate)) 7)
     (snd (snd (deep_clone example_store 8 7 example_predicate))) =
     Some (Applied ''$gt'' [Bytes [1], Bytes [2, 3, 4]]) \<and>
   observe (release example_store 7) example_predicate = None"
proof -
  have a: "example_store 7 = Some \<lparr>bytes = [1, 2, 3, 4], holders = 1\<rparr>"
    and f: "example_store 8 = None"
    by (simp_all add: example_store_def)
  have h: "0 < holders \<lparr>bytes = [1, 2, 3, 4], holders = 1\<rparr>"
    and n: "Suc 0 \<le> holders \<lparr>bytes = [1, 2, 3, 4], holders = 1\<rparr>" by simp_all
  have r: "refers_to 7 example_predicate" by (simp add: example_predicate_def)
  have s: "shallowClone toy_match = shallow_clone" by (simp add: toy_match_def)
  have d: "deep_clone example_store 8 7 example_predicate =
        (fst (deep_clone example_store 8 7 example_predicate), 8,
         snd (snd (deep_clone example_store 8 7 example_predicate)))"
    by (simp add: deep_clone_def)
  have c: "0 < length match_heap"
    "payload (match_heap ! 0) = MatchExpressionASTNode 7 (Some example_predicate)"
    "children (match_heap ! 0) = []"
    by (simp_all add: match_heap_def)
  note u = MatchExpression_clone_as_deep_clone[OF a h r f s d n c, of 0]
  note t = u[THEN conjunct2]
  have 0: "clone (Suc 0) toy_match match_heap 0 =
     Some (Inr (match_heap @
       [\<lparr>parent = None, children = [],
          payload = MatchExpressionASTNode 7 (Some example_predicate)\<rparr>], 1))"
    using u[THEN conjunct1] by (simp add: alloc_def shallow_clone_id match_heap_def)
  have o: "observe example_store example_predicate = Some (Applied ''$gt'' [Bytes [1], Bytes [2, 3, 4]])"
    by (simp add: example_store_def example_predicate_def)
  have 1: "clone_MatchExpression toy_match example_store (MatchExpressionASTNode 7 (Some example_predicate)) =
     Inr (Map.empty(7 \<mapsto> \<lparr>bytes = [1, 2, 3, 4], holders = 2\<rparr>),
          MatchExpressionASTNode 7 (Some example_predicate))"
  proof -
    have "retain example_store 7 = Map.empty(7 \<mapsto> \<lparr>bytes = [1, 2, 3, 4], holders = 2\<rparr>)"
      using t[THEN conjunct2, THEN conjunct1] by (simp add: example_store_def numeral_2_eq_2)
    with t[THEN conjunct1] show ?thesis by (simp add: shallow_clone_id)
  qed
  note t6 = t[THEN conjunct2, THEN conjunct2, THEN conjunct2, THEN conjunct2, THEN conjunct2,
                THEN conjunct1]
  note t7 = t[THEN conjunct2, THEN conjunct2, THEN conjunct2, THEN conjunct2, THEN conjunct2,
                THEN conjunct2]
  have 2: "observe (release (retain example_store 7) 7) (shallow_clone example_predicate) =
     Some (Applied ''$gt'' [Bytes [1], Bytes [2, 3, 4]])"
    using t6 o by simp
  have 3: "observe (release (fst (deep_clone example_store 8 7 example_predicate)) 7)
     (snd (snd (deep_clone example_store 8 7 example_predicate))) =
     Some (Applied ''$gt'' [Bytes [1], Bytes [2, 3, 4]])"
    using t7 o by simp
  have 4: "observe (release example_store 7) example_predicate = None"
    by (simp add: example_store_def example_predicate_def release_def)
  from 0 1 o 2 3 4 show ?thesis by (intro conjI)
qed

end
